theory Spec2Isabelle
  imports Main "HOL-Library.Product_Lexorder" "HOL-Library.Sublist" "HOL-Library.Word"
begin

unbundle bit_operations_syntax

section \<open>Errors\<close>

text \<open>
  The exceptions the script can raise. A raise ends the run, so every fallible stage
  returns \<open>error + 'a\<close> with \<open>Inl\<close> for the exception.
\<close>

datatype error = IndexError | ValueError | ZeroDivisionError | TypeError | AssertionError

section \<open>The tree builder (\<open>tree\<close>)\<close>

text \<open>
  \<open>root = 0xF + 11\<close>: the parent value of a node that has no parent yet.
\<close>

definition root :: nat where
  "root = 15 + 11"

text \<open>
  The priority queue holds pairs \<open>(count, node)\<close>, compared as Python compares tuples
  (lexicographically). It is kept as the sorted list of its entries: \<open>put\<close> inserts in
  order, \<open>get\<close> takes the head. The node indices in the queue are pairwise distinct, so
  the least entry is unique and the heap's internal layout cannot be observed.
\<close>

type_synonym pqueue = "(int \<times> nat) list"

definition put :: "int \<times> nat \<Rightarrow> pqueue \<Rightarrow> pqueue" where
  "put x q = insort x q"

function tree_loop :: "pqueue \<Rightarrow> nat list \<Rightarrow> error + nat list" where
  "tree_loop [] tree = Inr tree"
| "tree_loop [x] tree = Inr tree"
| "tree_loop ((ci, i) # (cj, j) # q) tree =
     (let k = length tree;
          tree1 = tree @ [root]
      in if i < length tree1 \<and> j < length tree1
         then tree_loop (put (ci + cj, k) q) (tree1[i := k, j := k])
         else Inl IndexError)"
  by pat_completeness auto
termination
  by (relation "measure (\<lambda>(q, t). length q)") (auto simp: put_def)

definition tree :: "int list \<Rightarrow> error + nat list" where
  "tree symbol_counts =
     tree_loop (fold put (zip symbol_counts [0..<length symbol_counts]) [])
               (replicate 11 root)"

section \<open>The code generator (\<open>huffman\<close>)\<close>

text \<open>Python's \<open>str\<close> on a non-negative integer.\<close>

definition digit_char :: "nat \<Rightarrow> char" where
  "digit_char n = char_of (of_char (CHR ''0'') + n)"

fun str_nat :: "nat \<Rightarrow> string" where
  "str_nat n = (if n < 10 then [digit_char n]
                else str_nat (n div 10) @ [digit_char (n mod 10)])"

declare str_nat.simps [simp del]

definition huffman_step ::
  "nat list \<Rightarrow> nat \<Rightarrow> string list \<times> nat list \<Rightarrow> string list \<times> nat list" where
  "huffman_step tr i s =
     (case s of (code, children) \<Rightarrow>
        let parent = tr ! i
        in if parent < length tr
           then (code[i := code ! parent @ str_nat (children ! parent)],
                 children[parent := children ! parent + 1])
           else (code, children))"

definition huffman_pass :: "nat list \<Rightarrow> string list \<times> nat list" where
  "huffman_pass tr =
     fold (huffman_step tr) (rev [0..<length tr])
          (replicate (length tr) [], replicate (length tr) 0)"

definition huffman_codes :: "nat list \<Rightarrow> string list" where
  "huffman_codes tr = fst (huffman_pass tr)"

definition huffman :: "nat list \<Rightarrow> string list" where
  "huffman tr = take 11 (huffman_codes tr)"


section \<open>Python helpers\<close>

text \<open>
  A Python list subscript: a negative index counts from the end, an index outside
  \<open>-len .. len-1\<close> raises IndexError (here \<open>None\<close>).
\<close>

definition py_index :: "'a list \<Rightarrow> int \<Rightarrow> nat option" where
  "py_index xs k =
     (if 0 \<le> k \<and> k < int (length xs) then Some (nat k)
      else if k < 0 \<and> - int (length xs) \<le> k then Some (nat (int (length xs) + k))
      else None)"

text \<open>
  Characters are modelled as 8-bit \<open>char\<close>s: the input file is taken to hold code
  points below 256 only. \<open>is_space\<close> is the whitespace \<open>str.strip()\<close> removes in
  that range.
\<close>

definition is_space :: "char \<Rightarrow> bool" where
  "is_space c =
     (let n = (of_char c :: nat)
      in (9 \<le> n \<and> n \<le> 13) \<or> (28 \<le> n \<and> n \<le> 32) \<or> n = 133 \<or> n = 160)"

definition strip :: "string \<Rightarrow> string" where
  "strip s = rev (dropWhile is_space (rev (dropWhile is_space s)))"

text \<open>
  \<open>fmt_b w x\<close> is the format \<open>f"{x:0wb}"\<close>: binary digits, zero-padded to width
  \<open>w\<close>, the sign counted in the width.
\<close>

fun bin_nat :: "nat \<Rightarrow> string" where
  "bin_nat n = (if n < 2 then [digit_char n]
                else bin_nat (n div 2) @ [digit_char (n mod 2)])"

declare bin_nat.simps [simp del]

definition zfill :: "nat \<Rightarrow> string \<Rightarrow> string" where
  "zfill w s = replicate (w - length s) (CHR ''0'') @ s"

definition fmt_b :: "nat \<Rightarrow> int \<Rightarrow> string" where
  "fmt_b w x =
     (if x < 0 then CHR ''-'' # zfill (w - 1) (bin_nat (nat (- x)))
      else zfill w (bin_nat (nat x)))"

text \<open>
  \<open>int2 s\<close> is \<open>int(s, 2)\<close> followed by \<open>bytes((v,))\<close>. The write buffer holds
  only characters produced by \<open>str\<close> and by the binary format, that is decimal digits
  and the minus sign; on such a string one of the two calls raises ValueError
  (here \<open>None\<close>) unless the string is a non-empty sequence of 0s and 1s.
\<close>

fun parse_bin :: "string \<Rightarrow> nat \<Rightarrow> nat option" where
  "parse_bin [] acc = Some acc"
| "parse_bin (c # cs) acc =
     (if c = CHR ''0'' then parse_bin cs (2 * acc)
      else if c = CHR ''1'' then parse_bin cs (2 * acc + 1)
      else None)"

definition int2 :: "string \<Rightarrow> nat option" where
  "int2 s = (if s = [] then None else parse_bin s 0)"

type_synonym byte = "8 word"

section \<open>ENCODE: reading the input\<close>

text \<open>
  The inner loop over the characters of one stripped line. The state is the pair
  \<open>(text, counts)\<close>.
\<close>

fun scan_line :: "bool \<Rightarrow> string \<Rightarrow> int list \<times> int list \<Rightarrow> error + int list \<times> int list" where
  "scan_line leading [] s = Inr s"
| "scan_line leading (c # cs) (text, counts) =
     (if leading \<and> c = CHR ''0'' then scan_line leading cs (text, counts)
      else
        let c1 = (if c = CHR ''-'' then CHR ''0'' else c);
            leading1 = (if c = CHR ''-'' then leading else False);
            digit = int (of_char c1) - int (of_char (CHR ''0''))
        in case py_index counts digit of
             None \<Rightarrow> Inl IndexError
           | Some k \<Rightarrow> scan_line leading1 cs (text @ [digit], counts[k := counts ! k + 1]))"

text \<open>
  The outer loop over the lines the file iterator yields; the state is
  \<open>(i, text, counts)\<close>.
\<close>

fun read_input ::
  "string list \<Rightarrow> nat \<times> int list \<times> int list \<Rightarrow> error + nat \<times> int list \<times> int list" where
  "read_input [] s = Inr s"
| "read_input (line # rest) (i, text, counts) =
     (case scan_line True (strip line) (text, counts) of
        Inl e \<Rightarrow> Inl e
      | Inr (text1, counts1) \<Rightarrow>
          (case py_index counts1 10 of
             None \<Rightarrow> Inl IndexError
           | Some k \<Rightarrow>
               read_input rest (i + 1, text1 @ [10], counts1[k := counts1 ! k + 1])))"

section \<open>ENCODE: the statistics\<close>

text \<open>
  The loop over \<open>range(11)\<close> that sums \<open>count\<close> and \<open>bits\<close>, and the division
  \<open>bits/count\<close>, which raises ZeroDivisionError when \<open>count\<close> is 0. The printing
  itself changes no state and is left out.
\<close>

fun infos_loop :: "int list \<Rightarrow> string list \<Rightarrow> nat list \<Rightarrow> int \<times> int \<Rightarrow> error + int \<times> int" where
  "infos_loop counts codes [] s = Inr s"
| "infos_loop counts codes (n # ns) (bits, count) =
     (if n < length counts \<and> n < length codes
      then infos_loop counts codes ns
             (bits + counts ! n * int (length (codes ! n)), count + counts ! n)
      else Inl IndexError)"

definition infos :: "int list \<Rightarrow> string list \<Rightarrow> error + int \<times> int" where
  "infos counts codes =
     (case infos_loop counts codes [0..<11] (0, 0) of
        Inl e \<Rightarrow> Inl e
      | Inr (bits, count) \<Rightarrow>
          if count = 0 then Inl ZeroDivisionError else Inr (bits, count))"

section \<open>ENCODE: writing the output\<close>

definition header_bits :: "nat list \<Rightarrow> string" where
  "header_bits header = concat (map (\<lambda>n. fmt_b 4 (int n - 11)) header)"

function fill :: "string list \<Rightarrow> int list \<Rightarrow> nat \<Rightarrow> string \<Rightarrow> error + nat \<times> string" where
  "fill codes text n buffer =
     (if length buffer < 8 then
        (if n < length text then
           (case py_index codes (text ! n) of
              None \<Rightarrow> Inl IndexError
            | Some k \<Rightarrow> fill codes text (n + 1) (buffer @ codes ! k))
         else if 0 < length buffer
         then fill codes text n (buffer @ replicate (8 - length buffer) (CHR ''0''))
         else Inr (n, buffer))
      else Inr (n, buffer))"
  by pat_completeness auto
termination
  by (relation "measures [\<lambda>(codes, text, n, buffer). length text - n,
                          \<lambda>(codes, text, n, buffer). 8 - length buffer]") auto

declare fill.simps [simp del]

text \<open>
  What one run of the refill loop does to \<open>n\<close> and to the buffer length; the outer
  loop's termination rests on it.
\<close>

lemma fill_progress:
  "fill codes toks n b = Inr (n', b') \<Longrightarrow>
     n \<le> n' \<and> (n < n' \<longrightarrow> n' \<le> length toks) \<and>
     (n' = n \<longrightarrow> (if 8 \<le> length b then b' = b else if b = [] then b' = [] else length b' = 8))"
proof (induction codes toks n b rule: fill.induct)
  case (1 codes toks n buffer)
  show ?case
  proof (cases "length buffer < 8")
    case False
    with "1.prems" show ?thesis by (simp add: fill.simps)
  next
    case short: True
    show ?thesis
    proof (cases "n < length toks")
      case True
      with short "1.prems" obtain k where k: "py_index codes (toks ! n) = Some k"
        and r: "fill codes toks (n + 1) (buffer @ codes ! k) = Inr (n', b')"
        by (subst (asm) fill.simps) (auto split: option.splits)
      from "1.IH"(1) [OF short True k r] True show ?thesis by auto
    next
      case False
      show ?thesis
      proof (cases "buffer = []")
        case True
        with short False "1.prems" show ?thesis by (simp add: fill.simps)
      next
        case ne: False
        with short False "1.prems"
        have r: "fill codes toks n (buffer @ replicate (8 - length buffer) (CHR ''0'')) = Inr (n', b')"
          by (subst (asm) fill.simps) simp
        from "1.IH"(2) [OF short False _ r] ne short show ?thesis by auto
      qed
    qed
  qed
qed

function write_loop ::
  "string list \<Rightarrow> int list \<Rightarrow> nat \<Rightarrow> string \<Rightarrow> byte list \<Rightarrow> error + byte list" where
  "write_loop codes text n buffer out =
     (if n < length text \<or> buffer \<noteq> [] then
        (case int2 (take 8 buffer) of
           None \<Rightarrow> Inl ValueError
         | Some v \<Rightarrow>
             (case fill codes text n (drop 8 buffer) of
                Inl e \<Rightarrow> Inl e
              | Inr (n1, buffer1) \<Rightarrow> write_loop codes text n1 buffer1 (out @ [of_nat v])))
      else Inr out)"
  by pat_completeness auto
termination
proof (relation "measures [\<lambda>(codes, text, n, buffer, out). length text - n,
                           \<lambda>(codes, text, n, buffer, out). length buffer]", goal_cases)
  case 1
  show ?case by simp
next
  case (2 codes toks n buffer out v r n1 buffer1)
  from 2(2) have ne: "buffer \<noteq> []" by (auto simp: int2_def split: if_splits)
  from 2(3,4) have f: "fill codes toks n (drop 8 buffer) = Inr (n1, buffer1)" by simp
  note p = fill_progress [OF f]
  show ?case
  proof (cases "n1 = n")
    case False
    with p show ?thesis by auto
  next
    case True
    with p ne have "length buffer1 < length buffer"
      by (cases "8 \<le> length (drop 8 buffer)"; cases "drop 8 buffer = []") (auto split: if_splits)
    with True show ?thesis by simp
  qed
qed

declare write_loop.simps [simp del]

definition write_output :: "nat list \<Rightarrow> string list \<Rightarrow> int list \<Rightarrow> error + byte list" where
  "write_output header codes text = write_loop codes text 0 (header_bits header) []"

section \<open>ENCODE\<close>

text \<open>
  The first half of the script: the input lines (as the file iterator yields them) to
  the bytes of the \<open>.huf\<close> file and the line count \<open>i\<close>.
\<close>

definition ENCODE :: "string list \<Rightarrow> error + byte list \<times> nat" where
  "ENCODE lines =
     (case read_input lines (0, [], replicate 11 0) of
        Inl e \<Rightarrow> Inl e
      | Inr (i, text0, counts) \<Rightarrow>
          (case tree counts of
             Inl e \<Rightarrow> Inl e
           | Inr header \<Rightarrow>
               (case infos counts (huffman header) of
                  Inl e \<Rightarrow> Inl e
                | Inr st \<Rightarrow>
                    (case write_output header (huffman header) (text0 @ [0, 0]) of
                       Inl e \<Rightarrow> Inl e
                     | Inr file \<Rightarrow> Inr (file, i)))))"

section \<open>DECODE\<close>

text \<open>
  Reading the header: \<open>rb(src)\<close> on an exhausted file returns \<open>None\<close>, and
  \<open>None >> 4\<close> raises TypeError. The result is the header, the buffer and the
  unread rest of the file.
\<close>

fun read_header :: "byte list \<Rightarrow> nat list \<Rightarrow> error + nat list \<times> string \<times> byte list" where
  "read_header [] header = Inl TypeError"
| "read_header (byte # src) header =
     (let a = unat (drop_bit 4 byte);
          b = unat (byte AND 0xF)
      in if a \<noteq> 0xF
         then (if b = 0xF then Inr (header @ [a + 11, b + 11], [], src)
               else read_header src (header @ [a + 11, b + 11]))
         else Inr (header @ [a + 11], fmt_b 4 (int b), src))"

record decoder =
  buffer :: string
  number :: string
  lines_out :: "string list"
  j_count :: nat
  writing :: bool

text \<open>The \<open>for n in range(10)\<close> scan for a digit code at the front of the buffer.\<close>

fun match_digit :: "string list \<Rightarrow> string \<Rightarrow> nat list \<Rightarrow> error + nat option" where
  "match_digit codes buf [] = Inr None"
| "match_digit codes buf (n # ns) =
     (if n < length codes
      then (if length (codes ! n) \<le> length buf \<and> take (length (codes ! n)) buf = codes ! n
            then Inr (Some n)
            else match_digit codes buf ns)
      else Inl IndexError)"

text \<open>
  The inner \<open>while True\<close> loop. It need not terminate on a malformed header (a digit
  code may be empty), so not returning is the value \<open>None\<close>.
\<close>

partial_function (option) decode_inner ::
  "string list \<Rightarrow> nat \<Rightarrow> decoder \<Rightarrow> (error + decoder) option" where
  "decode_inner codes i s =
     (if number s = ''-0'' then Some (Inr (s\<lparr>writing := False\<rparr>))
      else if codes = [] then Some (Inl IndexError)
      else if length (last codes) \<le> length (buffer s)
              \<and> take (length (last codes)) (buffer s) = last codes
      then (if j_count s + 1 \<le> i
            then decode_inner codes i
                   (s\<lparr>buffer := drop (length (last codes)) (buffer s),
                      lines_out := lines_out s @ [if number s = [] then ''0'' else number s],
                      number := [],
                      j_count := j_count s + 1\<rparr>)
            else Some (Inl AssertionError))
      else (case match_digit codes (buffer s) [0..<10] of
              Inl e \<Rightarrow> Some (Inl e)
            | Inr None \<Rightarrow> Some (Inr s)
            | Inr (Some n) \<Rightarrow>
                decode_inner codes i
                  (s\<lparr>number := (if length (number s) = 0 \<and> n = 0 then ''-''
                                 else number s @ [digit_char n]),
                     buffer := drop (length (codes ! n)) (buffer s)\<rparr>)))"

declare decode_inner.simps [code]

text \<open>The outer loop \<open>while writing and (byte := rb(src)) is not None\<close>.\<close>

fun decode_loop ::
  "string list \<Rightarrow> nat \<Rightarrow> byte list \<Rightarrow> decoder \<Rightarrow> (error + decoder) option" where
  "decode_loop codes i [] s = Some (Inr s)"
| "decode_loop codes i (byte # src) s =
     (if writing s
      then (case decode_inner codes i (s\<lparr>buffer := buffer s @ fmt_b 8 (uint byte)\<rparr>) of
              None \<Rightarrow> None
            | Some (Inl e) \<Rightarrow> Some (Inl e)
            | Some (Inr s1) \<Rightarrow> decode_loop codes i src s1)
      else Some (Inr s))"

definition DECODE :: "byte list \<Rightarrow> nat \<Rightarrow> (error + decoder) option" where
  "DECODE file i =
     (case read_header file [] of
        Inl e \<Rightarrow> Some (Inl e)
      | Inr (header, buffer0, src) \<Rightarrow>
          decode_loop (huffman header) i src
            \<lparr>buffer = buffer0, number = [], lines_out = [], j_count = 0, writing = True\<rparr>)"

section \<open>The whole script\<close>

text \<open>
  ENCODE, then DECODE of the file just written, with the line count \<open>i\<close> of the
  first half still in scope. What follows in the script (printing the number of lines,
  waiting for a key, calling the diff tool and removing the temporary file) is outside
  the model.
\<close>

definition HUFF :: "string list \<Rightarrow> (error + decoder) option" where
  "HUFF lines =
     (case ENCODE lines of
        Inl e \<Rightarrow> Some (Inl e)
      | Inr (file, i) \<Rightarrow> DECODE file i)"

section \<open>Vocabulary of the verification\<close>

text \<open>
  The definitions below are not part of the script. They name the invariants of its
  loops and the quantities the theorems are stated in; each is explained in the section
  that uses it.
\<close>

subsection \<open>Trees and code tables\<close>

text \<open>
  \<open>nkids t p\<close> counts the entries of \<open>t\<close> whose parent is \<open>p\<close>. \<open>tree_inv\<close> is the
  invariant of the tree builder's loop and \<open>wf_tree\<close> what it leaves when the loop
  ends. \<open>ordinal t i\<close> counts the siblings of \<open>i\<close> stored above it, \<open>huffman_from t m\<close>
  is the state of the code generator's backward pass when it has handled the indices
  from \<open>m\<close> upwards, and \<open>pass_inv\<close> its invariant. \<open>good_codes\<close> says that a table
  has 11 non-empty codes over 0 and 1, none a prefix of another.
\<close>

definition nkids :: "nat list \<Rightarrow> nat \<Rightarrow> nat" where
  "nkids t p = length (filter (\<lambda>c. t ! c = p) [0..<length t])"

definition tree_inv :: "pqueue \<Rightarrow> nat list \<Rightarrow> bool" where
  "tree_inv q t \<longleftrightarrow>
     q \<noteq> [] \<and> distinct (map snd q) \<and> 11 \<le> length t \<and> length t + length q = 22 \<and>
     (\<forall>i<length t. if i \<in> snd ` set q then t ! i = root
                   else i < t ! i \<and> 11 \<le> t ! i \<and> t ! i < length t) \<and>
     snd ` set q \<subseteq> {..<length t} \<and>
     (\<forall>p<length t. nkids t p \<le> 2)"

definition wf_tree :: "nat list \<Rightarrow> bool" where
  "wf_tree t \<longleftrightarrow>
     length t = 21 \<and> t ! 20 = root \<and>
     (\<forall>i<20. i < t ! i \<and> 11 \<le> t ! i \<and> t ! i < 21) \<and>
     (\<forall>p<21. nkids t p \<le> 2)"

definition ordinal :: "nat list \<Rightarrow> nat \<Rightarrow> nat" where
  "ordinal t i = length (filter (\<lambda>c. t ! c = t ! i) [Suc i..<length t])"

definition huffman_from :: "nat list \<Rightarrow> nat \<Rightarrow> string list \<times> nat list" where
  "huffman_from t m =
     fold (huffman_step t) (rev [m..<length t])
          (replicate (length t) [], replicate (length t) 0)"

definition pass_inv :: "nat list \<Rightarrow> nat \<Rightarrow> string list \<times> nat list \<Rightarrow> bool" where
  "pass_inv t m s \<longleftrightarrow>
     (case s of (code, ch) \<Rightarrow>
        length code = length t \<and> length ch = length t \<and>
        (\<forall>i<length t. code ! i =
            (if m \<le> i \<and> t ! i < length t then code ! (t ! i) @ str_nat (ordinal t i) else [])) \<and>
        (\<forall>p<length t. ch ! p = length (filter (\<lambda>c. t ! c = p) [m..<length t])))"

definition good_codes :: "string list \<Rightarrow> bool" where
  "good_codes codes \<longleftrightarrow>
     length codes = 11 \<and>
     (\<forall>a<11. codes ! a \<noteq> [] \<and> set (codes ! a) \<subseteq> {CHR ''0'', CHR ''1''}) \<and>
     (\<forall>a<11. \<forall>b<11. prefix (codes ! a) (codes ! b) \<longrightarrow> a = b)"

subsection \<open>Bit strings\<close>

text \<open>\<open>binary s\<close>: the string holds only the characters 0 and 1.\<close>

definition binary :: "string \<Rightarrow> bool" where
  "binary s \<longleftrightarrow> set s \<subseteq> {CHR ''0'', CHR ''1''}"

subsection \<open>The bits of a file\<close>

text \<open>
  \<open>bits_of file\<close> is the file as the decoder sees it, every byte formatted with
  \<open>08b\<close>. \<open>payload codes toks\<close> is the concatenation of the codes of the symbols
  \<open>toks\<close>, \<open>pad8\<close> the zero padding to the next byte boundary and \<open>tail_pad\<close> the
  same padding for a payload that follows an 84-bit header. \<open>tokens_ok\<close>: every
  symbol indexes the table and every code is binary.
\<close>

definition bits_of :: "byte list \<Rightarrow> string" where
  "bits_of file = concat (map (\<lambda>b. fmt_b 8 (uint b)) file)"

definition payload :: "string list \<Rightarrow> int list \<Rightarrow> string" where
  "payload codes toks = concat (map (\<lambda>x. codes ! nat x) toks)"

definition pad8 :: "string \<Rightarrow> string" where
  "pad8 s = s @ replicate ((8 - length s mod 8) mod 8) (CHR ''0'')"

definition tokens_ok :: "string list \<Rightarrow> int list \<Rightarrow> bool" where
  "tokens_ok codes toks \<longleftrightarrow>
     (\<forall>x\<in>set toks. 0 \<le> x \<and> x < int (length codes)) \<and> (\<forall>c\<in>set codes. binary c)"

definition tail_pad :: "string \<Rightarrow> string" where
  "tail_pad p = p @ replicate ((8 - (84 + length p) mod 8) mod 8) (CHR ''0'')"

subsection \<open>Valid lines and the symbol-level decoder\<close>

text \<open>
  A valid line is an optional minus sign followed by one or more decimal digits. A
  canonical line is a valid line without superfluous leading zeros; the text \<open>-0\<close>
  is not canonical (the canonical zero is \<open>0\<close>).

  \<open>line_tokens\<close> is \<open>scan_line\<close> without the counts: the symbols one line appends to
  \<open>text\<close>; \<open>text_of\<close> is the symbol stream of a whole file, before the end marker.
  \<open>num_step\<close> and \<open>tok_run\<close> are the decoder's state machine read on symbols instead
  of bits: \<open>tok_run\<close> carries the pair (\<open>number\<close>, lines written) and is \<open>None\<close> when
  the end-of-stream test \<open>number == "-0"\<close> fires before a symbol is consumed.
  \<open>decoded_line s\<close> is the line the decoder writes for the symbols of the valid line
  \<open>s\<close>, \<open>seps\<close> the number of separators in a symbol list, and \<open>cnt_ok\<close> the invariant
  of the frequency table while the input is read.
\<close>

definition is_digit :: "char \<Rightarrow> bool" where
  "is_digit c \<longleftrightarrow> 48 \<le> (of_char c :: nat) \<and> (of_char c :: nat) \<le> 57"

fun valid_line :: "string \<Rightarrow> bool" where
  "valid_line [] = False"
| "valid_line (c # cs) =
     (if c = CHR ''-'' then cs \<noteq> [] \<and> list_all is_digit cs
      else list_all is_digit (c # cs))"

fun canonical :: "string \<Rightarrow> bool" where
  "canonical [] = False"
| "canonical (c # cs) =
     (if c = CHR ''-'' then cs \<noteq> [] \<and> hd cs \<noteq> CHR ''0'' \<and> list_all is_digit cs
      else list_all is_digit (c # cs) \<and> (c = CHR ''0'' \<longrightarrow> cs = []))"

fun line_tokens :: "bool \<Rightarrow> string \<Rightarrow> int list" where
  "line_tokens leading [] = []"
| "line_tokens leading (c # cs) =
     (if leading \<and> c = CHR ''0'' then line_tokens leading cs
      else if c = CHR ''-'' then 0 # line_tokens leading cs
      else (int (of_char c) - 48) # line_tokens False cs)"

definition num_step :: "string \<Rightarrow> nat \<Rightarrow> string" where
  "num_step num n = (if length num = 0 \<and> n = 0 then ''-'' else num @ [digit_char n])"

fun tok_run :: "int list \<Rightarrow> string \<times> string list \<Rightarrow> (string \<times> string list) option" where
  "tok_run [] s = Some s"
| "tok_run (x # xs) (num, out) =
     (if num = ''-0'' then None
      else if x = 10 then tok_run xs ([], out @ [if num = [] then ''0'' else num])
      else tok_run xs (num_step num (nat x), out))"

fun decoded_line :: "string \<Rightarrow> string" where
  "decoded_line [] = ''0''"
| "decoded_line (c # cs) =
     (if c = CHR ''-'' then c # dropWhile (\<lambda>d. d = CHR ''0'') cs
      else if dropWhile (\<lambda>d. d = CHR ''0'') (c # cs) = [] then ''0''
      else dropWhile (\<lambda>d. d = CHR ''0'') (c # cs))"

definition cnt_ok :: "int list \<Rightarrow> bool" where
  "cnt_ok counts \<longleftrightarrow> length counts = 11 \<and> (\<forall>x\<in>set counts. 0 \<le> x)"

definition text_of :: "string list \<Rightarrow> int list" where
  "text_of lines = concat (map (\<lambda>l. line_tokens True (strip l) @ [10]) lines)"

definition seps :: "int list \<Rightarrow> nat" where
  "seps ts = length (filter (\<lambda>x. x = 10) ts)"

text \<open>
  The tokenizer indexes the count table, and the write loop the code table, with
  \<open>ord(c) - ord('0')\<close> as it is: for a character below \<open>'0'\<close> the index is negative
  and Python counts from the end of the 11-entry table. \<open>sym_of\<close> is the symbol such
  an index selects. The characters \<open>':'\<close> (index 10) and \<open>'/'\<close> (index -1) select
  the separator symbol; \<open>no_sep_chars\<close> says that a line contains neither.
\<close>

definition sym_of :: "int \<Rightarrow> int" where
  "sym_of x = (if x < 0 then x + 11 else x)"

definition no_sep_chars :: "string \<Rightarrow> bool" where
  "no_sep_chars s \<longleftrightarrow> CHR ''/'' \<notin> set s \<and> CHR '':'' \<notin> set s"

section \<open>The tree builder's invariant\<close>

text \<open>
  The invariant \<open>tree_inv\<close> says: the queue holds exactly the nodes that still carry
  the root marker, every other node has a parent that was created after it, and no
  node has more than two children. Every merge step keeps it; from an 11-entry table
  the loop starts in it and ends, after ten merges, with a tree that is \<open>wf_tree\<close>.
\<close>

lemma nkids_card: "nkids t p = card {c. c < length t \<and> t ! c = p}"
proof -
  have "distinct (filter (\<lambda>c. t ! c = p) [0..<length t])" by simp
  then have "length (filter (\<lambda>c. t ! c = p) [0..<length t])
             = card (set (filter (\<lambda>c. t ! c = p) [0..<length t]))"
    by (rule distinct_card [symmetric])
  also have "set (filter (\<lambda>c. t ! c = p) [0..<length t]) = {c. c < length t \<and> t ! c = p}"
    by auto
  finally show ?thesis by (simp add: nkids_def)
qed

lemma set_put: "set (put x q) = insert x (set q)"
  by (simp add: put_def set_insort_key)

lemma length_put: "length (put x q) = Suc (length q)"
  by (simp add: put_def)

lemma distinct_snd_put:
  "distinct (map snd (put x q)) \<longleftrightarrow> snd x \<notin> snd ` set q \<and> distinct (map snd q)"
  by (auto simp: put_def distinct_map distinct_insort set_insort_key)

lemma tree_inv_step:
  assumes inv: "tree_inv ((ci, i) # (cj, j) # q) t"
  shows "i < length t" and "j < length t" and "i \<noteq> j"
    and "tree_inv (put (ci + cj, length t) q) ((t @ [root])[i := length t, j := length t])"
proof -
  let ?k = "length t"
  let ?t = "(t @ [root])[i := ?k, j := ?k]"
  let ?q = "put (ci + cj, ?k) q"
  from inv have d: "distinct (i # j # map snd q)" and len: "length t + length q = 20"
    and bnd: "i < ?k" "j < ?k" "snd ` set q \<subseteq> {..<?k}"
    and ent: "\<And>m. m < ?k \<Longrightarrow> (if m = i \<or> m = j \<or> m \<in> snd ` set q then t ! m = root
                   else m < t ! m \<and> 11 \<le> t ! m \<and> t ! m < ?k)"
    and kids: "\<And>p. p < ?k \<Longrightarrow> nkids t p \<le> 2"
    by (auto simp: tree_inv_def)
  show "i < ?k" "j < ?k" by fact+
  from d show ij: "i \<noteq> j" by simp
  have k20: "?k \<le> 20" using len by simp
  have kroot: "?k \<noteq> root" using k20 by (simp add: root_def)
  have knq: "?k \<notin> snd ` set q" using bnd by auto
  have nth: "\<And>m. m \<le> ?k \<Longrightarrow> ?t ! m = (if m = i \<or> m = j then ?k else if m = ?k then root else t ! m)"
    using bnd by (auto simp: nth_list_update nth_append)
  have lt: "length ?t = Suc ?k" by simp
  have "?q \<noteq> []" by (metis length_put list.size(3) nat.simps(3))
  moreover have "distinct (map snd ?q)" using d knq by (simp add: distinct_snd_put)
  moreover have "11 \<le> length ?t" using inv by (simp add: tree_inv_def)
  moreover have "length ?t + length ?q = 22" using len by (simp add: length_put)
  moreover have "\<forall>m<length ?t. if m \<in> snd ` set ?q then ?t ! m = root
                   else m < ?t ! m \<and> 11 \<le> ?t ! m \<and> ?t ! m < length ?t"
  proof (intro allI impI)
    fix m assume "m < length ?t"
    then have m: "m \<le> ?k" by simp
    show "if m \<in> snd ` set ?q then ?t ! m = root
                   else m < ?t ! m \<and> 11 \<le> ?t ! m \<and> ?t ! m < length ?t"
    proof (cases "m = ?k")
      case True
      then show ?thesis using bnd by (simp add: nth [OF m] set_put)
    next
      case False
      with m have mk: "m < ?k" by simp
      have k11: "11 \<le> ?k" using inv by (simp add: tree_inv_def)
      show ?thesis using ent [OF mk] d mk k11 False
        by (auto simp: nth [OF m] set_put lt split: if_splits)
    qed
  qed
  moreover have "snd ` set ?q \<subseteq> {..<length ?t}" using bnd by (auto simp: set_put)
  moreover have "\<forall>p<length ?t. nkids ?t p \<le> 2"
  proof (intro allI impI)
    fix p assume "p < length ?t"
    then have p: "p \<le> ?k" by simp
    show "nkids ?t p \<le> 2"
    proof (cases "p = ?k")
      case True
      have "{c. c < length ?t \<and> ?t ! c = p} \<subseteq> {i, j}"
      proof
        fix c assume "c \<in> {c. c < length ?t \<and> ?t ! c = p}"
        then have c: "c \<le> ?k" and v: "?t ! c = ?k" using True by auto
        show "c \<in> {i, j}"
        proof (rule ccontr)
          assume n: "c \<notin> {i, j}"
          show False
          proof (cases "c = ?k")
            case True then show ?thesis using v n kroot by (simp add: nth [OF c])
          next
            case False
            with c have ck: "c < ?k" by simp
            from ent [OF ck] v n False kroot show False
              by (auto simp: nth [OF c] split: if_splits)
          qed
        qed
      qed
      then have "card {c. c < length ?t \<and> ?t ! c = p} \<le> card {i, j}"
        by (intro card_mono) auto
      also have "\<dots> \<le> 2" by (simp add: card_insert_if)
      finally show ?thesis by (simp only: nkids_card)
    next
      case False
      with p have pk: "p < ?k" by simp
      have "{c. c < length ?t \<and> ?t ! c = p} \<subseteq> {c. c < ?k \<and> t ! c = p}"
      proof
        fix c assume "c \<in> {c. c < length ?t \<and> ?t ! c = p}"
        then have c: "c \<le> ?k" and v: "?t ! c = p" by auto
        have "p = (if c = i \<or> c = j then ?k else if c = ?k then root else t ! c)"
          using nth [OF c] v by simp
        with pk k20 have "c \<noteq> ?k \<and> t ! c = p"
          by (auto simp: root_def split: if_splits)
        with c show "c \<in> {c. c < ?k \<and> t ! c = p}" by simp
      qed
      then have "card {c. c < length ?t \<and> ?t ! c = p} \<le> card {c. c < ?k \<and> t ! c = p}"
        by (intro card_mono) auto
      also have "\<dots> \<le> 2" using kids [OF pk] by (simp only: nkids_card)
      finally show ?thesis by (simp only: nkids_card)
    qed
  qed
  ultimately show "tree_inv ?q ?t" unfolding tree_inv_def by blast
qed

lemma tree_inv_final:
  assumes inv: "tree_inv [x] t"
  shows "wf_tree t"
proof -
  from inv have len: "length t = 21" and x: "snd x < 21"
    and ent: "\<And>m. m < 21 \<Longrightarrow> (if m = snd x then t ! m = root
                   else m < t ! m \<and> 11 \<le> t ! m \<and> t ! m < 21)"
    and kids: "\<forall>p<21. nkids t p \<le> 2"
    by (auto simp: tree_inv_def)
  from ent [of 20] have x20: "snd x = 20" by (auto split: if_splits)
  with ent [of 20] have "t ! 20 = root" by simp
  moreover have "\<forall>i<20. i < t ! i \<and> 11 \<le> t ! i \<and> t ! i < 21"
  proof (intro allI impI)
    fix i :: nat assume "i < 20"
    then show "i < t ! i \<and> 11 \<le> t ! i \<and> t ! i < 21"
      using ent [of i] x20 by simp
  qed
  ultimately show ?thesis using len kids by (simp add: wf_tree_def)
qed

lemma tree_loop_wf:
  "tree_inv q t \<Longrightarrow> \<exists>t'. tree_loop q t = Inr t' \<and> wf_tree t'"
proof (induction q t rule: tree_loop.induct)
  case (1 t)
  then show ?case by (simp add: tree_inv_def)
next
  case (2 x t)
  then show ?case by (simp add: tree_inv_final)
next
  case (3 ci i cj j q t)
  note step = tree_inv_step [OF "3.prems"]
  have "\<exists>t'. tree_loop (put (ci + cj, length t) q)
                ((t @ [root])[i := length t, j := length t]) = Inr t' \<and> wf_tree t'"
    using step by (intro "3.IH") simp_all
  then show ?case using step(1,2) by (simp add: Let_def)
qed

lemma set_fold_put: "set (fold put xs q) = set xs \<union> set q"
  by (induction xs arbitrary: q) (auto simp: set_put)

lemma length_fold_put: "length (fold put xs q) = length xs + length q"
  by (induction xs arbitrary: q) (auto simp: length_put)

lemma distinct_fold_put:
  "distinct (map snd xs @ map snd q) \<Longrightarrow> distinct (map snd (fold put xs q))"
proof (induction xs arbitrary: q)
  case Nil
  then show ?case by simp
next
  case (Cons x xs)
  have "distinct (map snd xs @ map snd (put x q))"
    using Cons.prems by (auto simp: distinct_snd_put set_put)
  then show ?case using Cons.IH by simp
qed

lemma tree_inv_init:
  assumes "length counts = 11"
  shows "tree_inv (fold put (zip counts [0..<length counts]) []) (replicate 11 root)"
proof -
  let ?z = "zip counts [0..<length counts]"
  let ?q = "fold put ?z []"
  have ms: "map snd ?z = [0..<11]" using assms by simp
  have "length ?q = 11" using assms by (simp add: length_fold_put)
  moreover from this have "?q \<noteq> []" by auto
  moreover have "distinct (map snd ?q)"
    by (rule distinct_fold_put) (simp add: ms)
  moreover have "snd ` set ?q = {..<11}"
  proof -
    have "snd ` set ?q = set (map snd ?z)" by (simp only: set_fold_put set_map) simp
    then show ?thesis by (simp only: ms) auto
  qed
  moreover have "\<forall>p<11. nkids (replicate 11 root) p \<le> 2"
    by (auto simp: nkids_def root_def filter_empty_conv intro!: le_trans [of _ 0])
  ultimately show ?thesis by (simp add: tree_inv_def)
qed

lemma tree_wf:
  assumes "length counts = 11"
  shows "\<exists>t. tree counts = Inr t \<and> wf_tree t"
  unfolding tree_def by (rule tree_loop_wf [OF tree_inv_init [OF assms]])

section \<open>What the code generator computes\<close>

text \<open>
  \<open>ordinal t i\<close> is the number of siblings of \<open>i\<close> stored above it: the value the
  counter \<open>children[parent]\<close> has when the backward pass reaches \<open>i\<close>.
\<close>

lemma huffman_from_Suc:
  "m < length t \<Longrightarrow> huffman_from t m = huffman_step t m (huffman_from t (Suc m))"
  by (simp add: huffman_from_def upt_conv_Cons)

lemma pass_inv_step:
  assumes par: "\<forall>i<length t. t ! i < length t \<longrightarrow> i < t ! i"
    and m: "m < length t"
    and inv: "pass_inv t (Suc m) s"
  shows "pass_inv t m (huffman_step t m s)"
proof -
  obtain code ch where s: "s = (code, ch)" by (cases s)
  let ?n = "length t"
  from inv s have lc: "length code = ?n" and lh: "length ch = ?n"
    and cd: "\<And>i. i < ?n \<Longrightarrow> code ! i =
            (if Suc m \<le> i \<and> t ! i < ?n then code ! (t ! i) @ str_nat (ordinal t i) else [])"
    and ch: "\<And>p. p < ?n \<Longrightarrow> ch ! p = length (filter (\<lambda>c. t ! c = p) [Suc m..<?n])"
    by (auto simp: pass_inv_def)
  have upt: "[m..<?n] = m # [Suc m..<?n]" using m by (simp add: upt_conv_Cons)
  show ?thesis
  proof (cases "t ! m < ?n")
    case False
    have "\<And>i. i < ?n \<Longrightarrow> code ! i =
            (if m \<le> i \<and> t ! i < ?n then code ! (t ! i) @ str_nat (ordinal t i) else [])"
    proof -
      fix i assume i: "i < ?n"
      show "code ! i =
            (if m \<le> i \<and> t ! i < ?n then code ! (t ! i) @ str_nat (ordinal t i) else [])"
        using cd [OF i] False by (cases "i = m") auto
    qed
    moreover have "\<And>p. p < ?n \<Longrightarrow> ch ! p = length (filter (\<lambda>c. t ! c = p) [m..<?n])"
      using ch False by (auto simp: upt)
    ultimately show ?thesis using False lc lh by (simp add: s huffman_step_def pass_inv_def Let_def)
  next
    case True
    let ?p = "t ! m"
    let ?code = "code[m := code ! ?p @ str_nat (ch ! ?p)]"
    let ?ch = "ch[?p := ch ! ?p + 1]"
    have mp: "m < ?p" using par m True by simp
    have hs: "huffman_step t m s = (?code, ?ch)"
      using True by (simp add: s huffman_step_def Let_def)
    have ord: "ch ! ?p = ordinal t m" using ch [OF True] by (simp add: ordinal_def)
    have "\<And>i. i < ?n \<Longrightarrow> ?code ! i =
            (if m \<le> i \<and> t ! i < ?n then ?code ! (t ! i) @ str_nat (ordinal t i) else [])"
    proof -
      fix i assume i: "i < ?n"
      show "?code ! i =
            (if m \<le> i \<and> t ! i < ?n then ?code ! (t ! i) @ str_nat (ordinal t i) else [])"
      proof (cases "i = m")
        case True
        then show ?thesis using mp m lc \<open>t ! m < ?n\<close> ord by simp
      next
        case False
        show ?thesis
        proof (cases "Suc m \<le> i \<and> t ! i < ?n")
          case True
          then have "i < t ! i" using par i by simp
          with True have "t ! i \<noteq> m" by simp
          then show ?thesis using cd [OF i] True False by simp
        next
          case False
          then show ?thesis using cd [OF i] \<open>i \<noteq> m\<close> by auto
        qed
      qed
    qed
    moreover have "\<And>p. p < ?n \<Longrightarrow> ?ch ! p = length (filter (\<lambda>c. t ! c = p) [m..<?n])"
      using ch lh by (auto simp: upt nth_list_update)
    ultimately show ?thesis using lc lh by (simp add: hs pass_inv_def)
  qed
qed

lemma pass_inv_from:
  assumes par: "\<forall>i<length t. t ! i < length t \<longrightarrow> i < t ! i"
  shows "length t - m = d \<Longrightarrow> m \<le> length t \<Longrightarrow> pass_inv t m (huffman_from t m)"
proof (induction d arbitrary: m)
  case 0
  then have "m = length t" by simp
  then show ?case by (simp add: huffman_from_def pass_inv_def)
next
  case (Suc d)
  then have m: "m < length t" and "length t - Suc m = d" by simp_all
  then have "pass_inv t (Suc m) (huffman_from t (Suc m))" by (intro Suc.IH) simp_all
  then show ?case using pass_inv_step [OF par m] by (simp add: huffman_from_Suc [OF m])
qed

lemma huffman_codes_rec:
  assumes par: "\<forall>i<length t. t ! i < length t \<longrightarrow> i < t ! i"
  shows "length (huffman_codes t) = length t"
    and "i < length t \<Longrightarrow> huffman_codes t ! i =
           (if t ! i < length t then huffman_codes t ! (t ! i) @ str_nat (ordinal t i) else [])"
proof -
  have "pass_inv t 0 (huffman_from t 0)" by (rule pass_inv_from [OF par]) simp_all
  moreover have "huffman_from t 0 = huffman_pass t"
    by (simp add: huffman_from_def huffman_pass_def)
  ultimately have inv: "pass_inv t 0 (huffman_pass t)" by simp
  obtain code ch where s: "huffman_pass t = (code, ch)" by (cases "huffman_pass t")
  from inv show "length (huffman_codes t) = length t"
    by (simp add: s pass_inv_def huffman_codes_def)
  assume "i < length t"
  with inv show "huffman_codes t ! i =
           (if t ! i < length t then huffman_codes t ! (t ! i) @ str_nat (ordinal t i) else [])"
    by (simp add: s pass_inv_def huffman_codes_def)
qed

lemma str_nat_0: "str_nat 0 = ''0''"
  by (simp add: str_nat.simps digit_char_def char_of_eq_iff)

lemma str_nat_1: "str_nat (Suc 0) = ''1''"
  by (simp add: str_nat.simps digit_char_def char_of_eq_iff)

lemma upt_split: "i \<le> j \<Longrightarrow> j \<le> n \<Longrightarrow> [i..<n] = [i..<j] @ [j..<n]"
  using upt_add_eq_append [of i j "n - j"] by simp

lemma upt_split3: "i \<le> j \<Longrightarrow> j < n \<Longrightarrow> [i..<n] = [i..<j] @ j # [Suc j..<n]"
  using upt_split [of i j n] by (simp add: upt_conv_Cons)

lemma wf_tree_par:
  assumes "wf_tree t"
  shows "\<forall>i<length t. t ! i < length t \<longrightarrow> i < t ! i"
proof (intro allI impI)
  fix i assume "i < length t" "t ! i < length t"
  with assms have "i < 20"
    by (cases "i = 20") (auto simp: wf_tree_def root_def)
  with assms show "i < t ! i" by (simp add: wf_tree_def)
qed

lemma ordinal_less_nkids:
  assumes "i < length t"
  shows "ordinal t i < nkids t (t ! i)"
proof -
  have "[0..<length t] = [0..<i] @ i # [Suc i..<length t]"
    using assms by (intro upt_split3) simp_all
  then have "nkids t (t ! i) = length (filter (\<lambda>c. t ! c = t ! i) ([0..<i] @ i # [Suc i..<length t]))"
    by (simp only: nkids_def)
  then show ?thesis by (simp add: ordinal_def)
qed

lemma ordinal_sibling:
  assumes "i < j" "j < length t" "t ! i = t ! j"
  shows "ordinal t j < ordinal t i"
proof -
  have "[Suc i..<length t] = [Suc i..<j] @ j # [Suc j..<length t]"
    using assms by (intro upt_split3) simp_all
  then show ?thesis using assms by (simp add: ordinal_def)
qed

lemma wf_tree_code:
  assumes wf: "wf_tree t" and i: "i < 20"
  shows "huffman_codes t ! i =
           huffman_codes t ! (t ! i) @ (if ordinal t i = 0 then ''0'' else ''1'')"
proof -
  from wf i have ti: "t ! i < 21" and len: "length t = 21" by (simp_all add: wf_tree_def)
  have "ordinal t i < nkids t (t ! i)" using i len by (intro ordinal_less_nkids) simp
  also have "\<dots> \<le> 2" using wf ti by (simp add: wf_tree_def)
  finally have "ordinal t i = 0 \<or> ordinal t i = Suc 0" by auto
  moreover have "huffman_codes t ! i = huffman_codes t ! (t ! i) @ str_nat (ordinal t i)"
    using huffman_codes_rec(2) [OF wf_tree_par [OF wf], of i] i ti len by simp
  ultimately show ?thesis by (auto simp: str_nat_0 str_nat_1)
qed

lemma wf_tree_code_root:
  assumes wf: "wf_tree t"
  shows "huffman_codes t ! 20 = []"
  using huffman_codes_rec(2) [OF wf_tree_par [OF wf], of 20] wf
  by (simp add: wf_tree_def root_def)

lemma wf_tree_code_inj:
  assumes wf: "wf_tree t"
  shows "length (huffman_codes t ! i) = k \<Longrightarrow> i < 21 \<Longrightarrow> j < 21 \<Longrightarrow>
         huffman_codes t ! i = huffman_codes t ! j \<Longrightarrow> i = j"
proof (induction k arbitrary: i j)
  case 0
  then have e: "huffman_codes t ! i = []" "huffman_codes t ! j = []" by simp_all
  have "i = 20"
  proof (rule ccontr)
    assume "i \<noteq> 20"
    with 0 have "i < 20" by simp
    from wf_tree_code [OF wf this] e show False by (simp split: if_splits)
  qed
  moreover have "j = 20"
  proof (rule ccontr)
    assume "j \<noteq> 20"
    with 0 have "j < 20" by simp
    from wf_tree_code [OF wf this] e show False by (simp split: if_splits)
  qed
  ultimately show ?case by simp
next
  case (Suc k)
  have i: "i < 20"
  proof (rule ccontr)
    assume "\<not> i < 20"
    with Suc.prems have "i = 20" by simp
    with Suc.prems wf_tree_code_root [OF wf] show False by simp
  qed
  have j: "j < 20"
  proof (rule ccontr)
    assume "\<not> j < 20"
    with Suc.prems have "j = 20" by simp
    with Suc.prems wf_tree_code_root [OF wf] show False by simp
  qed
  note ci = wf_tree_code [OF wf i] and cj = wf_tree_code [OF wf j]
  from wf i j have ti: "t ! i < 21" and tj: "t ! j < 21" and len: "length t = 21"
    by (simp_all add: wf_tree_def)
  from Suc.prems(4) ci cj
  have peq: "huffman_codes t ! (t ! i) = huffman_codes t ! (t ! j)"
    and oeq: "(ordinal t i = 0) = (ordinal t j = 0)"
    by (auto split: if_splits)
  have "length (huffman_codes t ! (t ! i)) = k" using Suc.prems(1) ci by (simp split: if_splits)
  then have par: "t ! i = t ! j" using ti tj peq by (rule Suc.IH)
  show ?case
  proof (rule ccontr)
    assume "i \<noteq> j"
    then consider "i < j" | "j < i" by linarith
    then show False
    proof cases
      case 1
      from ordinal_sibling [OF 1 _ par] j len have lt: "ordinal t j < ordinal t i" by simp
      have "ordinal t i < nkids t (t ! i)" using i len by (intro ordinal_less_nkids) simp
      also have "\<dots> \<le> 2" using wf ti by (simp add: wf_tree_def)
      finally show False using lt oeq by simp
    next
      case 2
      from ordinal_sibling [OF 2 _ par [symmetric]] i len have lt: "ordinal t i < ordinal t j" by simp
      have "ordinal t j < nkids t (t ! j)" using j len by (intro ordinal_less_nkids) simp
      also have "\<dots> \<le> 2" using wf tj by (simp add: wf_tree_def)
      finally show False using lt oeq by simp
    qed
  qed
qed

lemma wf_tree_prefix:
  assumes wf: "wf_tree t"
  shows "length (huffman_codes t ! j) = k \<Longrightarrow> i < 21 \<Longrightarrow> j < 21 \<Longrightarrow>
         prefix (huffman_codes t ! i) (huffman_codes t ! j) \<Longrightarrow> i = j \<or> 11 \<le> i"
proof (induction k arbitrary: j)
  case 0
  then have "huffman_codes t ! i = huffman_codes t ! j" by simp
  then show ?case using wf_tree_code_inj [OF wf refl] 0 by blast
next
  case (Suc k)
  show ?case
  proof (cases "huffman_codes t ! i = huffman_codes t ! j")
    case True
    then show ?thesis using wf_tree_code_inj [OF wf refl] Suc.prems by blast
  next
    case False
    have j: "j < 20"
    proof (rule ccontr)
      assume "\<not> j < 20"
      with Suc.prems have "j = 20" by simp
      with Suc.prems wf_tree_code_root [OF wf] show False by simp
    qed
    note cj = wf_tree_code [OF wf j]
    from wf j have tj: "t ! j < 21" "11 \<le> t ! j" by (simp_all add: wf_tree_def)
    have "prefix (huffman_codes t ! i) (huffman_codes t ! (t ! j))"
      using Suc.prems(4) False cj by (auto simp: prefix_snoc split: if_splits)
    moreover have "length (huffman_codes t ! (t ! j)) = k"
      using Suc.prems(1) cj by (simp split: if_splits)
    ultimately have "i = t ! j \<or> 11 \<le> i" using Suc.IH Suc.prems(2) tj(1) by blast
    then show ?thesis using tj by auto
  qed
qed

lemma wf_tree_bits:
  assumes wf: "wf_tree t"
  shows "length (huffman_codes t ! i) = k \<Longrightarrow> i < 21 \<Longrightarrow>
         set (huffman_codes t ! i) \<subseteq> {CHR ''0'', CHR ''1''}"
proof (induction k arbitrary: i)
  case 0
  then show ?case by simp
next
  case (Suc k)
  have i: "i < 20"
  proof (rule ccontr)
    assume "\<not> i < 20"
    with Suc.prems have "i = 20" by simp
    with Suc.prems wf_tree_code_root [OF wf] show False by simp
  qed
  note ci = wf_tree_code [OF wf i]
  from wf i have ti: "t ! i < 21" by (simp add: wf_tree_def)
  have "length (huffman_codes t ! (t ! i)) = k" using Suc.prems(1) ci by (simp split: if_splits)
  then have "set (huffman_codes t ! (t ! i)) \<subseteq> {CHR ''0'', CHR ''1''}" using ti by (rule Suc.IH)
  then show ?case by (subst ci) auto
qed

lemma wf_tree_good_codes:
  assumes wf: "wf_tree t"
  shows "good_codes (huffman t)"
proof -
  have len: "length (huffman_codes t) = 21"
    using huffman_codes_rec(1) [OF wf_tree_par [OF wf]] wf by (simp add: wf_tree_def)
  have nth: "\<And>a. a < 11 \<Longrightarrow> huffman t ! a = huffman_codes t ! a"
    by (simp add: huffman_def)
  have "\<And>a. a < 11 \<Longrightarrow> huffman_codes t ! a \<noteq> []"
  proof -
    fix a :: nat assume "a < 11"
    then have "a < 20" by simp
    from wf_tree_code [OF wf this] show "huffman_codes t ! a \<noteq> []" by (simp split: if_splits)
  qed
  moreover have "\<And>a. a < 11 \<Longrightarrow> set (huffman_codes t ! a) \<subseteq> {CHR ''0'', CHR ''1''}"
    using wf_tree_bits [OF wf refl] by simp
  moreover have "\<And>a b. a < 11 \<Longrightarrow> b < 11 \<Longrightarrow>
       prefix (huffman_codes t ! a) (huffman_codes t ! b) \<Longrightarrow> a = b"
  proof -
    fix a b :: nat assume ab: "a < 11" "b < 11"
      and p: "prefix (huffman_codes t ! a) (huffman_codes t ! b)"
    from wf_tree_prefix [OF wf refl _ _ p] ab show "a = b" by simp
  qed
  ultimately show ?thesis using len by (simp add: good_codes_def huffman_def)
qed

section \<open>Claims about the tree builder and the code generator\<close>

text \<open>
  Claim C5. For every 11-entry frequency table the tree builder returns, and in the
  array it returns exactly one node holds the root marker: the last entry, which is the
  node created last.
\<close>

theorem tree_single_root_last:
  assumes "length symbol_counts = 11"
  shows "\<exists>t. tree symbol_counts = Inr t \<and> length t = 21 \<and>
             filter (\<lambda>i. t ! i = root) [0..<length t] = [length t - 1]"
proof -
  from tree_wf [OF assms] obtain t where t: "tree symbol_counts = Inr t" and wf: "wf_tree t"
    by blast
  from wf have len: "length t = 21" and r: "t ! 20 = root"
    and nr: "\<forall>i<20. t ! i < 21" by (simp_all add: wf_tree_def)
  have "filter (\<lambda>i. t ! i = root) [0..<20] = []"
    using nr by (auto simp: filter_empty_conv root_def)
  moreover have "[0..<21] = [0..<20] @ [20]" by (simp add: upt_split3 [of 0 20 21])
  ultimately have "filter (\<lambda>i. t ! i = root) [0..<21] = [20]" using r by simp
  with t len show ?thesis by simp
qed

theorem tree_single_root_last_witness:
  "length [3, 0, 4, 1, 5, 9, 2, 6, 5, 0, 7 :: int] = 11 \<and>
   (\<exists>t. tree [3, 0, 4, 1, 5, 9, 2, 6, 5, 0, 7] = Inr t \<and> length t = 21 \<and>
        filter (\<lambda>i. t ! i = root) [0..<length t] = [length t - 1])"
  using tree_single_root_last [of "[3, 0, 4, 1, 5, 9, 2, 6, 5, 0, 7]"] by simp

text \<open>
  Claim C2. For every 11-entry frequency table (the counts are arbitrary integers, zero
  included) the code table that \<open>huffman\<close> derives from the output of \<open>tree\<close> has
  11 entries and is prefix-free: for two distinct symbols, neither code is a prefix of
  the other.
\<close>

theorem huffman_prefix_free:
  assumes "length symbol_counts = 11"
  shows "\<exists>t. tree symbol_counts = Inr t \<and> length (huffman t) = 11 \<and>
             (\<forall>a<11. \<forall>b<11. a \<noteq> b \<longrightarrow> \<not> prefix (huffman t ! a) (huffman t ! b))"
proof -
  from tree_wf [OF assms] obtain t where t: "tree symbol_counts = Inr t" and wf: "wf_tree t"
    by blast
  from wf_tree_good_codes [OF wf] have "length (huffman t) = 11"
    and "\<forall>a<11. \<forall>b<11. a \<noteq> b \<longrightarrow> \<not> prefix (huffman t ! a) (huffman t ! b)"
    by (auto simp: good_codes_def)
  with t show ?thesis by blast
qed

theorem huffman_prefix_free_witness:
  "length [3, 0, 4, 1, 5, 9, 2, 6, 5, 0, 7 :: int] = 11 \<and>
   (\<exists>t. tree [3, 0, 4, 1, 5, 9, 2, 6, 5, 0, 7] = Inr t \<and> length (huffman t) = 11 \<and>
        (\<forall>a<11. \<forall>b<11. a \<noteq> b \<longrightarrow> \<not> prefix (huffman t ! a) (huffman t ! b)))"
  using huffman_prefix_free [of "[3, 0, 4, 1, 5, 9, 2, 6, 5, 0, 7]"] by simp

lemma tree_zero_counts:
  "tree [0, 0, 0, 0, 0, 0, 0, 0, 0, 0, 0] =
     Inr [11, 11, 12, 12, 13, 13, 14, 14, 15, 15, 16, 16, 17, 17, 18, 18, 19, 19, 20, 20, 26]"
  by code_simp

text \<open>
  Claim C6, as stated, fails: the backward pass meets the child in the higher slot
  first, so that child gets ordinal 0. On the tree of the all-zero table, node 11 has
  the children 0 and 1; the lower slot 0 gets the parent's code followed by 1.
\<close>

theorem lower_slot_ordinal_counterexample:
  "tree [0, 0, 0, 0, 0, 0, 0, 0, 0, 0, 0] =
     Inr [11, 11, 12, 12, 13, 13, 14, 14, 15, 15, 16, 16, 17, 17, 18, 18, 19, 19, 20, 20, 26] \<and>
   huffman_codes
     [11, 11, 12, 12, 13, 13, 14, 14, 15, 15, 16, 16, 17, 17, 18, 18, 19, 19, 20, 20, 26] ! 11
     = ''010'' \<and>
   huffman_codes
     [11, 11, 12, 12, 13, 13, 14, 14, 15, 15, 16, 16, 17, 17, 18, 18, 19, 19, 20, 20, 26] ! 0
     = ''0101'' \<and>
   huffman_codes
     [11, 11, 12, 12, 13, 13, 14, 14, 15, 15, 16, 16, 17, 17, 18, 18, 19, 19, 20, 20, 26] ! 1
     = ''0100''"
  by (simp add: tree_zero_counts) code_simp

text \<open>
  Claim C6, amended. In a tree produced by the tree builder, of two children \<open>a < b\<close>
  of the same parent, the one in the higher slot \<open>b\<close> receives ordinal 0 (its code is
  the parent's code followed by 0) and the one in the lower slot \<open>a\<close> receives
  ordinal 1.
\<close>

theorem higher_slot_ordinal_zero:
  assumes len: "length symbol_counts = 11" and t: "tree symbol_counts = Inr t"
    and ab: "a < b" and b: "b < length t" and sib: "t ! a = t ! b" and p: "t ! b < length t"
  shows "huffman_codes t ! b = huffman_codes t ! (t ! b) @ ''0'' \<and>
         huffman_codes t ! a = huffman_codes t ! (t ! b) @ ''1''"
proof -
  from tree_wf [OF len] t have wf: "wf_tree t" by simp
  then have l21: "length t = 21" by (simp add: wf_tree_def)
  have b20: "b < 20"
    using wf b p by (cases "b = 20") (auto simp: wf_tree_def root_def)
  with ab have a20: "a < 20" by simp
  have "ordinal t b < ordinal t a" by (rule ordinal_sibling [OF ab b sib])
  moreover have "ordinal t a < nkids t (t ! a)"
    using a20 l21 by (intro ordinal_less_nkids) simp
  moreover have "nkids t (t ! a) \<le> 2" using wf p sib l21 by (simp add: wf_tree_def)
  ultimately have "ordinal t b = 0" "ordinal t a \<noteq> 0" by simp_all
  with wf_tree_code [OF wf b20] wf_tree_code [OF wf a20] sib show ?thesis by simp
qed

theorem higher_slot_ordinal_zero_witness:
  "length [0, 0, 0, 0, 0, 0, 0, 0, 0, 0, 0 :: int] = 11 \<and>
   tree [0, 0, 0, 0, 0, 0, 0, 0, 0, 0, 0] =
     Inr [11, 11, 12, 12, 13, 13, 14, 14, 15, 15, 16, 16, 17, 17, 18, 18, 19, 19, 20, 20, 26] \<and>
   huffman_codes
     [11, 11, 12, 12, 13, 13, 14, 14, 15, 15, 16, 16, 17, 17, 18, 18, 19, 19, 20, 20, 26] ! 1
     = huffman_codes
     [11, 11, 12, 12, 13, 13, 14, 14, 15, 15, 16, 16, 17, 17, 18, 18, 19, 19, 20, 20, 26] ! 11 @ ''0'' \<and>
   huffman_codes
     [11, 11, 12, 12, 13, 13, 14, 14, 15, 15, 16, 16, 17, 17, 18, 18, 19, 19, 20, 20, 26] ! 0
     = huffman_codes
     [11, 11, 12, 12, 13, 13, 14, 14, 15, 15, 16, 16, 17, 17, 18, 18, 19, 19, 20, 20, 26] ! 11 @ ''1''"
  using higher_slot_ordinal_zero [of "[0, 0, 0, 0, 0, 0, 0, 0, 0, 0, 0]"
     "[11, 11, 12, 12, 13, 13, 14, 14, 15, 15, 16, 16, 17, 17, 18, 18, 19, 19, 20, 20, 26]" 0 1]
  by (simp add: tree_zero_counts)

section \<open>Binary strings and bytes\<close>

text \<open>
  The lemmas relate \<open>int(s, 2)\<close>, the binary format and the two nibbles of a byte.
\<close>

lemma binary_simps [simp]:
  "binary []" "binary (c # s) \<longleftrightarrow> (c = CHR ''0'' \<or> c = CHR ''1'') \<and> binary s"
  "binary (s @ s') \<longleftrightarrow> binary s \<and> binary s'"
  "binary (replicate k (CHR ''0''))"
  by (auto simp: binary_def)

lemma binary_take: "binary s \<Longrightarrow> binary (take k s)"
  by (auto simp: binary_def dest: in_set_takeD)

lemma binary_drop: "binary s \<Longrightarrow> binary (drop k s)"
  by (auto simp: binary_def dest: in_set_dropD)

lemma digit_char_0: "digit_char 0 = CHR ''0''"
  by (simp add: digit_char_def char_of_eq_iff)

lemma digit_char_1: "digit_char (Suc 0) = CHR ''1''"
  by (simp add: digit_char_def char_of_eq_iff)

lemma digit_char_mod2: "digit_char (v mod 2) = (if even v then CHR ''0'' else CHR ''1'')"
proof (cases "even v")
  case True
  then have "v mod 2 = 0" by presburger
  then show ?thesis using True by (simp add: digit_char_0)
next
  case False
  then have "v mod 2 = Suc 0" by presburger
  then show ?thesis using False by (simp add: digit_char_1)
qed

lemma bin_nat_small: "v < 2 \<Longrightarrow> bin_nat v = [digit_char v]"
  by (simp add: bin_nat.simps)

lemma bin_nat_big: "2 \<le> v \<Longrightarrow> bin_nat v = bin_nat (v div 2) @ [digit_char (v mod 2)]"
  by (subst bin_nat.simps) simp

lemma zfill_step:
  assumes "1 \<le> w"
  shows "zfill (Suc w) (bin_nat v) = zfill w (bin_nat (v div 2)) @ [digit_char (v mod 2)]"
proof (cases "v < 2")
  case True
  then have "v div 2 = 0" "v mod 2 = v" by simp_all
  moreover have "replicate (w - Suc 0) (CHR ''0'') @ ''0'' = replicate w (CHR ''0'')"
    using assms by (cases w) (simp_all add: replicate_append_same)
  ultimately show ?thesis using True
    by (simp add: bin_nat_small zfill_def digit_char_0)
next
  case False
  then show ?thesis by (simp add: bin_nat_big zfill_def Suc_diff_le)
qed

lemma zfill_1: "zfill (Suc 0) (bin_nat (v mod 2)) = [digit_char (v mod 2)]"
  by (simp add: bin_nat_small zfill_def)

lemma zfill_split:
  "1 \<le> w \<Longrightarrow> 1 \<le> k \<Longrightarrow>
   zfill (w + k) (bin_nat v) = zfill w (bin_nat (v div 2 ^ k)) @ zfill k (bin_nat (v mod 2 ^ k))"
proof (induction k arbitrary: v)
  case 0
  then show ?case by simp
next
  case (Suc k)
  show ?case
  proof (cases "k = 0")
    case True
    then show ?thesis using zfill_step [OF Suc.prems(1), of v] by (simp add: zfill_1)
  next
    case False
    then have k: "1 \<le> k" by simp
    have m: "v mod (2 * 2 ^ k) = 2 * (v div 2 mod 2 ^ k) + v mod 2"
      by (rule mod_mult2_eq)
    have d1: "v mod 2 ^ Suc k div 2 = v div 2 mod 2 ^ k" by (simp add: m)
    have d2: "v mod 2 ^ Suc k mod 2 = v mod 2" by (simp add: m)
    have d3: "v div 2 div 2 ^ k = v div 2 ^ Suc k" by (simp add: div_mult2_eq)
    have "zfill (w + Suc k) (bin_nat v) = zfill (w + k) (bin_nat (v div 2)) @ [digit_char (v mod 2)]"
      using zfill_step [of "w + k" v] Suc.prems by simp
    also have "\<dots> = zfill w (bin_nat (v div 2 ^ Suc k)) @ zfill k (bin_nat (v div 2 mod 2 ^ k))
                    @ [digit_char (v mod 2)]"
      using Suc.IH [OF Suc.prems(1) k, of "v div 2"] by (simp add: d3)
    also have "zfill k (bin_nat (v div 2 mod 2 ^ k)) @ [digit_char (v mod 2)]
               = zfill (Suc k) (bin_nat (v mod 2 ^ Suc k))"
      using zfill_step [OF k, of "v mod 2 ^ Suc k"] by (simp only: d1 d2)
    finally show ?thesis .
  qed
qed

lemma bin_nat_length: "0 < w \<Longrightarrow> v < 2 ^ w \<Longrightarrow> length (bin_nat v) \<le> w"
proof (induction w arbitrary: v)
  case 0
  then show ?case by simp
next
  case (Suc w)
  show ?case
  proof (cases "v < 2")
    case True
    then show ?thesis by (simp add: bin_nat_small)
  next
    case False
    then have w: "0 < w" using Suc.prems by (cases w) auto
    have "v div 2 < 2 ^ w" using Suc.prems by auto
    from Suc.IH [OF w this] False show ?thesis by (simp add: bin_nat_big)
  qed
qed

lemma bin_nat_binary: "binary (bin_nat v)"
proof (induction v rule: bin_nat.induct)
  case (1 n)
  show ?case
  proof (cases "n < 2")
    case True
    then have "n = 0 \<or> n = Suc 0" by auto
    then show ?thesis by (auto simp: bin_nat_small digit_char_0 digit_char_1)
  next
    case False
    with 1 show ?thesis by (simp add: bin_nat_big digit_char_mod2)
  qed
qed

lemma fmt_b_nat: "fmt_b w (int v) = zfill w (bin_nat v)"
  by (simp add: fmt_b_def)

lemma fmt_b_length: "0 < w \<Longrightarrow> v < 2 ^ w \<Longrightarrow> length (fmt_b w (int v)) = w"
  using bin_nat_length [of w v] by (simp add: fmt_b_nat zfill_def)

lemma fmt_b_binary: "binary (fmt_b w (int v))"
  by (simp add: fmt_b_nat zfill_def bin_nat_binary)

lemma parse_bin_snoc:
  "parse_bin (s @ [c]) acc =
     (case parse_bin s acc of
        None \<Rightarrow> None
      | Some u \<Rightarrow> if c = CHR ''0'' then Some (2 * u)
                  else if c = CHR ''1'' then Some (2 * u + 1) else None)"
  by (induction s arbitrary: acc) auto

lemma parse_bin_zeros: "parse_bin (replicate k (CHR ''0'') @ s) 0 = parse_bin s 0"
  by (induction k) auto

lemma parse_bin_bin_nat: "parse_bin (bin_nat v) 0 = Some v"
proof (induction v rule: bin_nat.induct)
  case (1 n)
  show ?case
  proof (cases "n < 2")
    case True
    then have "n = 0 \<or> n = Suc 0" by auto
    then show ?thesis by (auto simp: bin_nat_small digit_char_0 digit_char_1)
  next
    case False
    with 1 have "parse_bin (bin_nat (n div 2)) 0 = Some (n div 2)" by simp
    then show ?thesis using False
      by (auto simp: bin_nat_big parse_bin_snoc digit_char_mod2)
  qed
qed

lemma parse_bin_fmt_b: "parse_bin (fmt_b w (int v)) 0 = Some v"
  by (simp add: fmt_b_nat zfill_def parse_bin_zeros parse_bin_bin_nat)

lemma fmt_b_inj: "fmt_b w (int u) = fmt_b w (int v) \<Longrightarrow> u = v"
  by (metis option.inject parse_bin_fmt_b)

lemma binary_parse:
  "binary s \<Longrightarrow> \<exists>v. parse_bin s 0 = Some v \<and> v < 2 ^ length s \<and>
                      (s \<noteq> [] \<longrightarrow> zfill (length s) (bin_nat v) = s)"
proof (induction s rule: rev_induct)
  case Nil
  then show ?case by simp
next
  case (snoc c s)
  then obtain v where v: "parse_bin s 0 = Some v" "v < 2 ^ length s"
    and z: "s \<noteq> [] \<longrightarrow> zfill (length s) (bin_nat v) = s" by auto
  from snoc.prems have c: "c = CHR ''0'' \<or> c = CHR ''1''" by simp
  let ?u = "2 * v + (if c = CHR ''0'' then 0 else 1)"
  have p: "parse_bin (s @ [c]) 0 = Some ?u" using v c by (auto simp: parse_bin_snoc)
  have b: "?u < 2 ^ length (s @ [c])" using v by auto
  have dc: "digit_char (?u mod 2) = c"
  proof (cases "c = CHR ''0''")
    case True
    then have "even ?u" by simp
    then show ?thesis using True by (simp only: digit_char_mod2 if_True)
  next
    case False
    then have "odd ?u" by simp
    then show ?thesis using False c by (simp only: digit_char_mod2 if_False) simp
  qed
  have "zfill (length (s @ [c])) (bin_nat ?u) = s @ [c]"
  proof (cases "s = []")
    case True
    with v have "v = 0" by simp
    then have "?u < 2" "?u mod 2 = ?u" by simp_all
    then show ?thesis using True dc by (simp only: bin_nat_small zfill_def) simp
  next
    case False
    then have "1 \<le> length s" by (cases s) auto
    from zfill_step [OF this, of ?u] have
      "zfill (Suc (length s)) (bin_nat ?u) = zfill (length s) (bin_nat (?u div 2)) @ [c]"
      by (simp only: dc)
    moreover have "?u div 2 = v" by auto
    ultimately show ?thesis using z False by simp
  qed
  with p b show ?case by (intro exI [of _ ?u]) simp
qed

lemma int2_byte:
  assumes "binary s" "length s = 8"
  shows "\<exists>v. int2 s = Some v \<and> fmt_b 8 (uint (of_nat v :: byte)) = s"
proof -
  from binary_parse [OF assms(1)] assms(2) obtain v where
    v: "parse_bin s 0 = Some v" "v < 256" "zfill 8 (bin_nat v) = s" by auto
  have "unat (of_nat v :: byte) = v" using v(2) by (simp add: unat_of_nat)
  then have "uint (of_nat v :: byte) = int v" by (simp add: uint_nat)
  then show ?thesis using v assms(2) by (auto simp: int2_def fmt_b_nat)
qed

lemma nibble_div: "unat (drop_bit 4 (w :: byte)) = unat w div 2 ^ 4"
proof -
  have "unat (drop_bit 4 w) = drop_bit 4 (unat w)" by (rule unat_drop_bit_eq)
  also have "\<dots> = unat w div 2 ^ 4" by (rule drop_bit_eq_div)
  finally show ?thesis .
qed

lemma nibble_mod: "unat ((w :: byte) AND 0xF) = unat w mod 2 ^ 4"
proof -
  have "(0xF :: byte) = mask 4" by (simp add: mask_numeral)
  then have "w AND 0xF = take_bit 4 w" by (simp only: take_bit_eq_mask)
  then have "unat (w AND 0xF) = unat (take_bit 4 w)" by (rule arg_cong)
  also have "\<dots> = take_bit 4 (unat w)" by (rule unsigned_take_bit_eq)
  also have "\<dots> = unat w mod 2 ^ 4" by (rule take_bit_eq_mod)
  finally show ?thesis .
qed

lemma byte_less: "unat (w :: byte) < 256"
proof -
  have "unat w < 2 ^ LENGTH(8)" by (rule unsigned_less)
  then show ?thesis by simp
qed

lemma byte_nibbles:
  fixes w :: byte
  shows "fmt_b 8 (uint w) =
           fmt_b 4 (int (unat (drop_bit 4 w))) @ fmt_b 4 (int (unat (w AND 0xF)))"
proof -
  note a = nibble_div and b = nibble_mod
  have "fmt_b 8 (uint w) = fmt_b (4 + 4) (int (unat w))"
    by (simp only: uint_nat) simp
  also have "\<dots> = zfill (4 + 4) (bin_nat (unat w))"
    by (rule fmt_b_nat)
  also have "\<dots> = zfill 4 (bin_nat (unat w div 2 ^ 4)) @ zfill 4 (bin_nat (unat w mod 2 ^ 4))"
    by (rule zfill_split) simp_all
  finally show ?thesis by (simp only: a b fmt_b_nat)
qed

lemma nibble_bounds:
  fixes w :: byte
  shows "unat (drop_bit 4 w) < 16" and "unat (w AND 0xF) < 16"
proof -
  show "unat (drop_bit 4 w) < 16"
    using byte_less [of w] by (simp only: nibble_div) simp
  show "unat (w AND 0xF) < 16"
    by (simp only: nibble_mod) simp
qed

lemma fmt_b8_length: "length (fmt_b 8 (uint (w :: byte))) = 8"
proof -
  have "length (fmt_b 8 (int (unat w))) = 8"
    using byte_less [of w] by (intro fmt_b_length) simp_all
  then show ?thesis by (simp only: uint_nat)
qed

section \<open>What the write loop produces\<close>

text \<open>
  The write loop turns the buffer and the unwritten symbols into exactly the bytes of
  their zero-padded bit string.
\<close>

lemma pad8_chunk: "length x = 8 \<Longrightarrow> pad8 (x @ y) = x @ pad8 y"
  by (simp add: pad8_def)

lemma pad8_short:
  "0 < length b \<Longrightarrow> length b < 8 \<Longrightarrow> pad8 b = b @ replicate (8 - length b) (CHR ''0'')"
  by (simp add: pad8_def)

lemma pad8_full: "length b = 8 \<Longrightarrow> pad8 b = b"
  by (simp add: pad8_def)

lemma payload_drop:
  "n < length toks \<Longrightarrow>
   payload codes (drop n toks) = codes ! nat (toks ! n) @ payload codes (drop (Suc n) toks)"
  by (simp add: payload_def flip: Cons_nth_drop_Suc)

lemma payload_append: "payload codes (xs @ ys) = payload codes xs @ payload codes ys"
  by (simp add: payload_def)

lemma tokens_ok_index:
  assumes "tokens_ok codes toks" "n < length toks"
  shows "py_index codes (toks ! n) = Some (nat (toks ! n)) \<and> binary (codes ! nat (toks ! n))"
proof -
  from assms have x: "0 \<le> toks ! n" "toks ! n < int (length codes)"
    by (simp_all add: tokens_ok_def)
  then have "nat (toks ! n) < length codes" by simp
  then have "codes ! nat (toks ! n) \<in> set codes" by (rule nth_mem)
  with assms(1) have "binary (codes ! nat (toks ! n))" by (simp add: tokens_ok_def)
  with x show ?thesis by (simp add: py_index_def)
qed

lemma fill_spec:
  "tokens_ok codes toks \<Longrightarrow> binary b \<Longrightarrow> n \<le> length toks \<Longrightarrow>
   \<exists>n' b'. fill codes toks n b = Inr (n', b') \<and> n' \<le> length toks \<and> binary b' \<and>
     (8 \<le> length b' \<or> (n' = length toks \<and> b' = [])) \<and>
     pad8 (b' @ payload codes (drop n' toks)) = pad8 (b @ payload codes (drop n toks))"
proof (induction codes toks n b rule: fill.induct)
  case (1 codes toks n buffer)
  show ?case
  proof (cases "length buffer < 8")
    case False
    with "1.prems" show ?thesis by (simp add: fill.simps)
  next
    case short: True
    show ?thesis
    proof (cases "n < length toks")
      case True
      note k = tokens_ok_index [OF "1.prems"(1) True]
      have "\<exists>n' b'. fill codes toks (n + 1) (buffer @ codes ! nat (toks ! n)) = Inr (n', b') \<and>
              n' \<le> length toks \<and> binary b' \<and>
              (8 \<le> length b' \<or> (n' = length toks \<and> b' = [])) \<and>
              pad8 (b' @ payload codes (drop n' toks))
                = pad8 ((buffer @ codes ! nat (toks ! n)) @ payload codes (drop (n + 1) toks))"
        using "1.prems" True k by (intro "1.IH"(1) [OF short True]) simp_all
      then show ?thesis using short True k
        by (subst fill.simps) (simp add: payload_drop [OF True])
    next
      case False
      with "1.prems" have n: "n = length toks" by simp
      show ?thesis
      proof (cases "buffer = []")
        case True
        with short n show ?thesis by (simp add: fill.simps)
      next
        case ne: False
        let ?b = "buffer @ replicate (8 - length buffer) (CHR ''0'')"
        have l: "length ?b = 8" using short by simp
        have "fill codes toks n ?b = Inr (n, ?b)" using l by (simp add: fill.simps)
        then have "fill codes toks n buffer = Inr (n, ?b)"
          using short False ne by (subst fill.simps) simp
        moreover have "pad8 buffer = ?b" using short ne by (simp add: pad8_short)
        ultimately show ?thesis using "1.prems" n l by (simp add: payload_def pad8_full)
      qed
    qed
  qed
qed

lemma write_loop_spec:
  "tokens_ok codes toks \<Longrightarrow> binary b \<Longrightarrow> n \<le> length toks \<Longrightarrow>
   8 \<le> length b \<or> (n = length toks \<and> b = []) \<Longrightarrow>
   \<exists>bs. write_loop codes toks n b out = Inr (out @ bs) \<and>
        bits_of bs = pad8 (b @ payload codes (drop n toks))"
proof (induction codes toks n b out rule: write_loop.induct)
  case (1 codes toks n buffer out)
  show ?case
  proof (cases "8 \<le> length buffer")
    case False
    with "1.prems" have "n = length toks" "buffer = []" by auto
    then show ?thesis by (simp add: write_loop.simps bits_of_def payload_def pad8_def)
  next
    case True
    then have ne: "n < length toks \<or> buffer \<noteq> []" by auto
    have "binary (take 8 buffer)" "length (take 8 buffer) = 8"
      using "1.prems"(2) True by (simp_all add: binary_take)
    from int2_byte [OF this] obtain v where
      v: "int2 (take 8 buffer) = Some v" "fmt_b 8 (uint (of_nat v :: byte)) = take 8 buffer"
      by blast
    from fill_spec [OF "1.prems"(1) binary_drop [OF "1.prems"(2)] "1.prems"(3), of 8]
    obtain n1 b1 where f: "fill codes toks n (drop 8 buffer) = Inr (n1, b1)"
      and n1: "n1 \<le> length toks" and b1: "binary b1"
      and e: "8 \<le> length b1 \<or> (n1 = length toks \<and> b1 = [])"
      and p: "pad8 (b1 @ payload codes (drop n1 toks))
              = pad8 (drop 8 buffer @ payload codes (drop n toks))"
      by blast
    from "1.IH" [OF ne v(1) f refl "1.prems"(1) b1 n1 e]
    obtain bs where bs: "write_loop codes toks n1 b1 (out @ [of_nat v]) = Inr ((out @ [of_nat v]) @ bs)"
      and bb: "bits_of bs = pad8 (b1 @ payload codes (drop n1 toks))"
      by blast
    have w: "write_loop codes toks n buffer out = Inr (out @ of_nat v # bs)"
      using ne v(1) f bs by (subst write_loop.simps) simp
    have "bits_of (of_nat v # bs) = take 8 buffer @ pad8 (drop 8 buffer @ payload codes (drop n toks))"
      using v(2) bb p by (simp add: bits_of_def)
    also have "\<dots> = pad8 (take 8 buffer @ drop 8 buffer @ payload codes (drop n toks))"
      using True by (intro pad8_chunk [symmetric]) simp
    also have "take 8 buffer @ drop 8 buffer @ payload codes (drop n toks)
               = buffer @ payload codes (drop n toks)"
      by (simp only: append_assoc [symmetric] append_take_drop_id)
    finally have "bits_of (of_nat v # bs) = pad8 (buffer @ payload codes (drop n toks))" .
    with w show ?thesis by blast
  qed
qed

section \<open>Reading the header back\<close>

text \<open>
  The header of a well-formed tree is 21 four-bit fields, none of which is 0xF except
  the last, so the reader stops exactly there.
\<close>

lemma wf_tree_entries:
  assumes "wf_tree t" "x \<in> set t"
  shows "11 \<le> x \<and> x \<le> 26"
proof -
  from assms(2) obtain i where i: "i < length t" "t ! i = x" by (auto simp: in_set_conv_nth)
  show ?thesis
  proof (cases "i = 20")
    case True
    with assms(1) i show ?thesis by (simp add: wf_tree_def root_def)
  next
    case False
    with assms(1) i have "i < 20" by (simp add: wf_tree_def)
    with assms(1) i show ?thesis by (auto simp: wf_tree_def)
  qed
qed

lemma field_fmt: "11 \<le> x \<Longrightarrow> fmt_b 4 (int x - 11) = fmt_b 4 (int (x - 11))"
  by (simp add: of_nat_diff)

lemma field_length: "11 \<le> x \<Longrightarrow> x \<le> 26 \<Longrightarrow> length (fmt_b 4 (int x - 11)) = 4"
  by (simp only: field_fmt) (rule fmt_b_length, simp_all)

lemma field_binary: "11 \<le> x \<Longrightarrow> binary (fmt_b 4 (int x - 11))"
  by (simp only: field_fmt fmt_b_binary)

lemma field_root: "fmt_b 4 (int root - 11) = ''1111''"
  by (simp add: root_def fmt_b_def zfill_def bin_nat.simps digit_char_def char_of_eq_iff)

lemma header_bits_Cons: "header_bits (x # xs) = fmt_b 4 (int x - 11) @ header_bits xs"
  by (simp add: header_bits_def)

lemma header_bits_Nil: "header_bits [] = []"
  by (simp add: header_bits_def)

lemma header_bits_length:
  "\<forall>x\<in>set hs. 11 \<le> x \<and> x \<le> 26 \<Longrightarrow> length (header_bits hs) = 4 * length hs"
  by (induction hs) (simp_all add: header_bits_Nil header_bits_Cons field_length)

lemma header_bits_binary:
  "\<forall>x\<in>set hs. 11 \<le> x \<Longrightarrow> binary (header_bits hs)"
  by (induction hs) (simp_all add: header_bits_Nil header_bits_Cons field_binary)

lemma bits_of_Cons: "bits_of (w # src) = fmt_b 8 (uint w) @ bits_of src"
  by (simp add: bits_of_def)

lemma bits_of_Nil: "bits_of [] = []"
  by (simp add: bits_of_def)

lemma bits_of_append: "bits_of (xs @ ys) = bits_of xs @ bits_of ys"
  by (simp add: bits_of_def)

lemma bits_of_length: "length (bits_of fl) = 8 * length fl"
  by (induction fl) (simp_all add: bits_of_Nil bits_of_Cons fmt_b8_length)

lemma append_eq_same_length:
  "xs @ us = ys @ vs \<Longrightarrow> length xs = length ys \<Longrightarrow> xs = ys \<and> us = vs"
  by simp

text \<open>The first byte of a file whose bits start with two given 4-bit fields.\<close>

lemma first_byte:
  assumes bits: "bits_of fl = f1 @ f2 @ rest"
    and l: "length f1 = 4" "length f2 = 4"
  shows "\<exists>w src. fl = w # src \<and> bits_of src = rest \<and>
           fmt_b 4 (int (unat (drop_bit 4 w))) = f1 \<and>
           fmt_b 4 (int (unat (w AND 0xF))) = f2"
proof (cases fl)
  case Nil
  with bits l show ?thesis by (simp add: bits_of_Nil)
next
  case (Cons w src)
  have "fmt_b 8 (uint w) @ bits_of src = (f1 @ f2) @ rest"
    using bits Cons by (simp add: bits_of_Cons)
  moreover have "length (fmt_b 8 (uint w)) = length (f1 @ f2)"
    using l by (simp add: fmt_b8_length)
  ultimately have "fmt_b 8 (uint w) = f1 @ f2 \<and> bits_of src = rest"
    by (rule append_eq_same_length)
  then have e: "fmt_b 8 (uint w) = f1 @ f2" and r: "bits_of src = rest" by simp_all
  have "length (fmt_b 4 (int (unat (drop_bit 4 w)))) = 4"
    using nibble_bounds(1) [of w] by (intro fmt_b_length) simp_all
  with l have la: "length (fmt_b 4 (int (unat (drop_bit 4 w)))) = length f1" by simp
  from e have "fmt_b 4 (int (unat (drop_bit 4 w))) @ fmt_b 4 (int (unat (w AND 0xF))) = f1 @ f2"
    by (simp only: byte_nibbles)
  then have "fmt_b 4 (int (unat (drop_bit 4 w))) = f1 \<and> fmt_b 4 (int (unat (w AND 0xF))) = f2"
    using la by (rule append_eq_same_length)
  with Cons r show ?thesis by simp
qed

lemma read_header_spec:
  "even (length hs) \<Longrightarrow> \<forall>x\<in>set hs. 11 \<le> x \<and> x < 26 \<Longrightarrow> 4 \<le> length P \<Longrightarrow>
   bits_of fl = header_bits (hs @ [root]) @ P \<Longrightarrow>
   \<exists>src. read_header fl acc = Inr (acc @ hs @ [root], take 4 P, src) \<and>
         bits_of src = drop 4 P \<and> src = drop (length hs div 2 + 1) fl"
proof (induction hs arbitrary: fl acc rule: induct_list012)
  case 1
  have "bits_of fl = ''1111'' @ take 4 P @ drop 4 P"
    using "1.prems"(4) by (simp add: header_bits_Cons header_bits_Nil field_root)
  from first_byte [OF this] "1.prems"(3) obtain w src where
    f: "fl = w # src" and r: "bits_of src = drop 4 P"
    and a: "fmt_b 4 (int (unat (drop_bit 4 w))) = ''1111''"
    and b: "fmt_b 4 (int (unat (w AND 0xF))) = take 4 P"
    by auto
  have "fmt_b 4 (int (unat (drop_bit 4 w))) = fmt_b 4 (int 15)"
    using a field_root by (simp add: root_def)
  then have "unat (drop_bit 4 w) = 15" by (rule fmt_b_inj)
  then show ?case using f r b by (simp add: root_def)
next
  case (2 x)
  then show ?case by simp
next
  case (3 x y zs)
  from "3.prems"(2) have x: "11 \<le> x" "x < 26" and y: "11 \<le> y" "y < 26"
    and zs: "\<forall>x\<in>set zs. 11 \<le> x \<and> x < 26" by simp_all
  have "bits_of fl = fmt_b 4 (int x - 11) @ fmt_b 4 (int y - 11) @ header_bits (zs @ [root]) @ P"
    using "3.prems"(4) by (simp add: header_bits_Cons)
  from first_byte [OF this] x y obtain w src where
    f: "fl = w # src" and r: "bits_of src = header_bits (zs @ [root]) @ P"
    and a: "fmt_b 4 (int (unat (drop_bit 4 w))) = fmt_b 4 (int x - 11)"
    and b: "fmt_b 4 (int (unat (w AND 0xF))) = fmt_b 4 (int y - 11)"
    by (auto simp: field_length)
  from a x have "fmt_b 4 (int (unat (drop_bit 4 w))) = fmt_b 4 (int (x - 11))"
    by (simp only: field_fmt)
  then have av: "unat (drop_bit 4 w) = x - 11" by (rule fmt_b_inj)
  from b y have "fmt_b 4 (int (unat (w AND 0xF))) = fmt_b 4 (int (y - 11))"
    by (simp only: field_fmt)
  then have bv: "unat (w AND 0xF) = y - 11" by (rule fmt_b_inj)
  from "3.prems"(1) have ev: "even (length zs)" by simp
  from "3.IH"(1) [OF ev zs "3.prems"(3) r, of "acc @ [x, y]"] obtain src' where
    "read_header src (acc @ [x, y]) = Inr ((acc @ [x, y]) @ zs @ [root], take 4 P, src')"
    "bits_of src' = drop 4 P" "src' = drop (length zs div 2 + 1) src" by blast
  moreover have "read_header fl acc = read_header src (acc @ [x, y])"
  proof -
    have "x - 11 \<noteq> 15" "y - 11 \<noteq> 15" "x - 11 + 11 = x" "y - 11 + 11 = y"
      using x y by simp_all
    then show ?thesis by (simp add: f av bv Let_def)
  qed
  ultimately show ?case using f by simp
qed

lemma wf_tree_split:
  assumes wf: "wf_tree t"
  shows "t = butlast t @ [root]" and "length (butlast t) = 20"
    and "\<forall>x\<in>set (butlast t). 11 \<le> x \<and> x < 26"
proof -
  from wf have len: "length t = 21" and r: "t ! 20 = root" by (simp_all add: wf_tree_def)
  then have ne: "t \<noteq> []" by auto
  have "last t = root" using len r by (simp add: last_conv_nth [OF ne])
  then show "t = butlast t @ [root]" using append_butlast_last_id [OF ne] by simp
  show l: "length (butlast t) = 20" using len by simp
  show "\<forall>x\<in>set (butlast t). 11 \<le> x \<and> x < 26"
  proof
    fix x assume "x \<in> set (butlast t)"
    then obtain i where i: "i < 20" "butlast t ! i = x"
      using l by (auto simp: in_set_conv_nth)
    then have "t ! i = x" using len by (simp add: nth_butlast)
    with wf i(1) show "11 \<le> x \<and> x < 26" by (auto simp: wf_tree_def)
  qed
qed

lemma wf_tree_header_bits:
  assumes wf: "wf_tree t"
  shows "length (header_bits t) = 84" and "binary (header_bits t)"
proof -
  have e: "\<forall>x\<in>set t. 11 \<le> x \<and> x \<le> 26" using wf_tree_entries [OF wf] by blast
  from wf have "length t = 21" by (simp add: wf_tree_def)
  with header_bits_length [OF e] show "length (header_bits t) = 84" by simp
  from e show "binary (header_bits t)" by (intro header_bits_binary) simp
qed

lemma write_output_wf:
  assumes wf: "wf_tree t" and ok: "tokens_ok codes toks"
  shows "\<exists>fl. write_output t codes toks = Inr fl \<and>
              bits_of fl = header_bits t @ tail_pad (payload codes toks)"
proof -
  note h = wf_tree_header_bits [OF wf]
  from write_loop_spec [OF ok h(2), of 0 "[]"] h(1)
  obtain bs where "write_loop codes toks 0 (header_bits t) [] = Inr bs"
    "bits_of bs = pad8 (header_bits t @ payload codes toks)" by auto
  then show ?thesis using h(1) by (simp add: write_output_def pad8_def tail_pad_def)
qed

lemma tail_pad_length:
  assumes "bits_of fl = h @ tail_pad p" "length h = 84"
  shows "4 \<le> length (tail_pad p)"
proof -
  have "length (bits_of fl) = 8 * length fl" by (rule bits_of_length)
  with assms have "84 + length (tail_pad p) = 8 * length fl" by simp
  then show ?thesis by presburger
qed

lemma header_roundtrip:
  assumes wf: "wf_tree t" and ok: "tokens_ok codes toks"
  shows "\<exists>fl src. write_output t codes toks = Inr fl \<and>
           bits_of fl = header_bits t @ tail_pad (payload codes toks) \<and>
           read_header fl [] = Inr (t, take 4 (tail_pad (payload codes toks)), src) \<and>
           bits_of src = drop 4 (tail_pad (payload codes toks)) \<and>
           src = drop 11 fl"
proof -
  from write_output_wf [OF wf ok] obtain fl where
    w: "write_output t codes toks = Inr fl"
    and b: "bits_of fl = header_bits t @ tail_pad (payload codes toks)" by blast
  note s = wf_tree_split [OF wf]
  have l4: "4 \<le> length (tail_pad (payload codes toks))"
    using b wf_tree_header_bits(1) [OF wf] by (rule tail_pad_length)
  have b': "bits_of fl = header_bits (butlast t @ [root]) @ tail_pad (payload codes toks)"
    using b s(1) by simp
  have ev: "even (length (butlast t))" using s(2) by simp
  from read_header_spec [OF ev s(3) l4 b', of "[]"] s(1,2) w b show ?thesis by simp
qed

section \<open>The tokenizer on valid lines\<close>

text \<open>
  On valid lines the tokenizer raises no error, appends \<open>text_of\<close> to the symbol
  stream and keeps the frequency table well formed; on that stream the decoder's state
  machine writes \<open>decoded_line\<close> of every line and meets the end marker only at the end.
\<close>

lemma is_digit_facts:
  assumes "is_digit c"
  shows "c \<noteq> CHR ''-''" and "0 \<le> int (of_char c) - 48" and "int (of_char c) - 48 \<le> 9"
    and "digit_char (nat (int (of_char c) - 48)) = c"
    and "c \<noteq> CHR ''0'' \<Longrightarrow> int (of_char c) - 48 \<noteq> 0"
proof -
  from assms have b: "48 \<le> (of_char c :: nat)" "(of_char c :: nat) \<le> 57"
    by (simp_all add: is_digit_def)
  from b show "c \<noteq> CHR ''-''" by auto
  from b show "0 \<le> int (of_char c) - 48" "int (of_char c) - 48 \<le> 9" by simp_all
  have "nat (int (of_char c) - 48) = of_char c - 48" by simp
  then have "digit_char (nat (int (of_char c) - 48)) = char_of (of_char c :: nat)"
    using b by (simp add: digit_char_def)
  then show "digit_char (nat (int (of_char c) - 48)) = c" by simp
  assume "c \<noteq> CHR ''0''"
  then have "(of_char c :: nat) \<noteq> of_char (CHR ''0'')" by (simp only: of_char_eq_iff) simp
  then show "int (of_char c) - 48 \<noteq> 0" by simp
qed

lemma cnt_ok_bump:
  assumes "cnt_ok counts" "0 \<le> d" "d \<le> 10"
  shows "py_index counts d = Some (nat d)"
    and "cnt_ok (counts[nat d := counts ! nat d + 1])"
    and "counts ! 10 \<le> counts[nat d := counts ! nat d + 1] ! 10"
proof -
  from assms have l: "length counts = 11" and nn: "\<forall>x\<in>set counts. 0 \<le> x"
    by (simp_all add: cnt_ok_def)
  from assms l show "py_index counts d = Some (nat d)" by (simp add: py_index_def)
  have k: "nat d < length counts" using assms l by simp
  then have "0 \<le> counts ! nat d" using nn by simp
  then have "\<forall>x\<in>set (counts[nat d := counts ! nat d + 1]). 0 \<le> x"
    using nn by (auto dest!: set_update_subset_insert [THEN subsetD])
  then show "cnt_ok (counts[nat d := counts ! nat d + 1])" using l by (simp add: cnt_ok_def)
  show "counts ! 10 \<le> counts[nat d := counts ! nat d + 1] ! 10"
    using l by (cases "nat d = 10") simp_all
qed

lemma scan_line_spec:
  "cnt_ok counts \<Longrightarrow> list_all (\<lambda>c. is_digit c \<or> c = CHR ''-'') s \<Longrightarrow>
   \<exists>counts'. scan_line leading s (toks, counts) = Inr (toks @ line_tokens leading s, counts') \<and>
              cnt_ok counts' \<and> counts ! 10 \<le> counts' ! 10 \<and>
              (line_tokens leading s = [] \<longrightarrow> counts' = counts)"
proof (induction s arbitrary: leading toks counts)
  case Nil
  then show ?case by simp
next
  case (Cons c cs)
  from Cons.prems have cs: "list_all (\<lambda>c. is_digit c \<or> c = CHR ''-'') cs"
    and c: "is_digit c \<or> c = CHR ''-''" by simp_all
  show ?case
  proof (cases "leading \<and> c = CHR ''0''")
    case True
    with Cons.IH [OF Cons.prems(1) cs, of leading toks] show ?thesis by simp
  next
    case nz: False
    show ?thesis
    proof (cases "c = CHR ''-''")
      case True
      note b = cnt_ok_bump [OF Cons.prems(1), of 0]
      from Cons.IH [OF b(2) cs, of leading "toks @ [0]"] b(1,3) True nz
      show ?thesis by (auto simp: Let_def)
    next
      case False
      with c have d: "is_digit c" by simp
      note f = is_digit_facts [OF d]
      have d10: "int (of_char c) - 48 \<le> 10" using f(3) by simp
      note b = cnt_ok_bump [OF Cons.prems(1) f(2) d10]
      from Cons.IH [OF b(2) cs, of False "toks @ [int (of_char c) - 48]"] b(1,3) False nz
      show ?thesis by (auto simp: Let_def)
    qed
  qed
qed

lemma valid_line_chars:
  "valid_line s \<Longrightarrow> list_all (\<lambda>c. is_digit c \<or> c = CHR ''-'') s"
  by (cases s) (auto simp: list_all_iff split: if_splits)

lemma read_input_spec:
  "cnt_ok counts \<Longrightarrow> \<forall>l\<in>set lines. valid_line (strip l) \<Longrightarrow>
   \<exists>counts'. read_input lines (i, toks, counts)
                = Inr (i + length lines, toks @ text_of lines, counts') \<and>
              cnt_ok counts' \<and> counts ! 10 + int (length lines) \<le> counts' ! 10"
proof (induction lines arbitrary: i toks counts)
  case Nil
  then show ?case by (simp add: text_of_def)
next
  case (Cons l ls)
  from Cons.prems have v: "valid_line (strip l)" and vs: "\<forall>l\<in>set ls. valid_line (strip l)"
    by simp_all
  from scan_line_spec [OF Cons.prems(1) valid_line_chars [OF v], of True toks]
  obtain c1 where s: "scan_line True (strip l) (toks, counts)
                      = Inr (toks @ line_tokens True (strip l), c1)"
    and ok1: "cnt_ok c1" and le1: "counts ! 10 \<le> c1 ! 10" by blast
  note b = cnt_ok_bump [OF ok1, of 10]
  let ?c2 = "c1[nat 10 := c1 ! nat 10 + 1]"
  have le2: "counts ! 10 + 1 \<le> ?c2 ! 10"
    using le1 ok1 by (simp add: cnt_ok_def)
  from Cons.IH [OF _ vs, of ?c2 "i + 1" "(toks @ line_tokens True (strip l)) @ [10]"] b(2)
  obtain c3 where r: "read_input ls (i + 1, (toks @ line_tokens True (strip l)) @ [10], ?c2)
        = Inr (i + 1 + length ls, ((toks @ line_tokens True (strip l)) @ [10]) @ text_of ls, c3)"
    and ok3: "cnt_ok c3" and le3: "?c2 ! 10 + int (length ls) \<le> c3 ! 10" by auto
  have "read_input (l # ls) (i, toks, counts)
        = Inr (i + length (l # ls), toks @ text_of (l # ls), c3)"
    using s b(1) r by (simp add: text_of_def)
  moreover have "counts ! 10 + int (length (l # ls)) \<le> c3 ! 10" using le2 le3 by simp
  ultimately show ?case using ok3 by blast
qed

lemma read_input_single_zero:
  assumes "valid_line (strip l)" "line_tokens True (strip l) = []"
  shows "read_input [l] (0, [], replicate 11 0)
         = Inr (1, [10], [0, 0, 0, 0, 0, 0, 0, 0, 0, 0, 1])"
proof -
  have ok: "cnt_ok (replicate 11 0)" by (simp add: cnt_ok_def)
  from scan_line_spec [OF ok valid_line_chars [OF assms(1)], of True "[]"] assms(2)
  have "scan_line True (strip l) ([], replicate 11 0) = Inr ([], replicate 11 0)" by auto
  then show ?thesis by (simp add: py_index_def numeral_eq_Suc)
qed

subsection \<open>The decoder's number accumulation on the tokens of a valid line\<close>

lemma tok_run_append:
  "tok_run (xs @ ys) s = (case tok_run xs s of None \<Rightarrow> None | Some s' \<Rightarrow> tok_run ys s')"
  by (induction xs s rule: tok_run.induct) auto

lemma tok_run_digits:
  "list_all is_digit cs \<Longrightarrow> num \<noteq> [] \<Longrightarrow> num \<noteq> ''-'' \<Longrightarrow> num \<noteq> ''-0'' \<Longrightarrow>
   tok_run (line_tokens False cs @ rest) (num, out) = tok_run rest (num @ cs, out)"
proof (induction cs arbitrary: num)
  case Nil
  then show ?case by simp
next
  case (Cons c cs)
  from Cons.prems have d: "is_digit c" and ds: "list_all is_digit cs" by simp_all
  note f = is_digit_facts [OF d]
  have n: "num_step num (nat (int (of_char c) - 48)) = num @ [c]"
    using Cons.prems(2) f(4) by (simp add: num_step_def)
  have "num @ [c] \<noteq> []" "num @ [c] \<noteq> ''-''" "num @ [c] \<noteq> ''-0''"
    using Cons.prems(2,3) by (auto simp: append_eq_Cons_conv)
  from Cons.IH [OF ds this] Cons.prems(4) f(1,3) n show ?case by simp
qed

lemma tok_run_leading:
  "list_all is_digit cs \<Longrightarrow> num = [] \<or> num = ''-'' \<Longrightarrow>
   tok_run (line_tokens True cs @ rest) (num, out)
   = tok_run rest (num @ dropWhile (\<lambda>d. d = CHR ''0'') cs, out)"
proof (induction cs)
  case Nil
  then show ?case by simp
next
  case (Cons c cs)
  from Cons.prems have d: "is_digit c" and ds: "list_all is_digit cs" by simp_all
  show ?case
  proof (cases "c = CHR ''0''")
    case True
    with Cons.IH [OF ds Cons.prems(2)] show ?thesis by simp
  next
    case False
    note f = is_digit_facts [OF d]
    have n: "num_step num (nat (int (of_char c) - 48)) = num @ [c]"
      using f(4) f(5) [OF False] f(2) by (simp add: num_step_def)
    have j: "num @ [c] \<noteq> []" "num @ [c] \<noteq> ''-''" "num @ [c] \<noteq> ''-0''"
      using Cons.prems(2) False f(1) by auto
    have "tok_run (line_tokens True (c # cs) @ rest) (num, out)
          = tok_run (line_tokens False cs @ rest) (num @ [c], out)"
      using False f(1,3) n Cons.prems(2) by auto
    also have "\<dots> = tok_run rest ((num @ [c]) @ cs, out)"
      by (rule tok_run_digits [OF ds j])
    finally show ?thesis using False by simp
  qed
qed

lemma dropWhile_zero_ne: "dropWhile (\<lambda>d. d = CHR ''0'') cs \<noteq> ''0''"
  by (induction cs) simp_all

lemma tok_run_sep:
  "num \<noteq> ''-0'' \<Longrightarrow>
   tok_run (10 # rest) (num, out) = tok_run rest ([], out @ [if num = [] then ''0'' else num])"
  by simp

lemma digits_not_eof:
  assumes "list_all is_digit ds"
  shows "ds \<noteq> ''-0''"
proof
  assume "ds = ''-0''"
  with assms have "is_digit (CHR ''-'')" by simp
  then show False by (simp add: is_digit_def)
qed

lemma tok_run_line:
  assumes v: "valid_line s"
  shows "tok_run (line_tokens True s @ 10 # rest) ([], out)
         = tok_run rest ([], out @ [decoded_line s])"
proof (cases s)
  case Nil
  with v show ?thesis by simp
next
  case (Cons c cs)
  show ?thesis
  proof (cases "c = CHR ''-''")
    case True
    with v Cons have ds: "list_all is_digit cs" by simp
    let ?d = "dropWhile (\<lambda>d. d = CHR ''0'') cs"
    have ne: "''-'' @ ?d \<noteq> ''-0''" using dropWhile_zero_ne [of cs] by simp
    have "tok_run (line_tokens True s @ 10 # rest) ([], out)
          = tok_run (line_tokens True cs @ 10 # rest) (''-'', out)"
      by (simp add: Cons True num_step_def)
    also have "\<dots> = tok_run (10 # rest) (''-'' @ ?d, out)"
      by (rule tok_run_leading [OF ds]) simp
    also have "\<dots> = tok_run rest ([], out @ [if ''-'' @ ?d = [] then ''0'' else ''-'' @ ?d])"
      by (rule tok_run_sep [OF ne])
    also have "(if ''-'' @ ?d = [] then ''0'' else ''-'' @ ?d) = decoded_line s"
      by (simp add: Cons True)
    finally show ?thesis .
  next
    case False
    with v Cons have ds: "list_all is_digit s" by simp
    let ?d = "dropWhile (\<lambda>d. d = CHR ''0'') s"
    have "\<forall>x\<in>set ?d. is_digit x" using ds by (auto simp: list_all_iff dest: set_dropWhileD)
    then have dd: "list_all is_digit ?d" by (simp only: list_all_iff)
    have "tok_run (line_tokens True s @ 10 # rest) ([], out) = tok_run (10 # rest) ([] @ ?d, out)"
      by (rule tok_run_leading [OF ds]) simp
    also have "\<dots> = tok_run rest ([], out @ [if [] @ ?d = [] then ''0'' else [] @ ?d])"
      by (rule tok_run_sep) (simp only: append_Nil digits_not_eof [OF dd] not_False_eq_True)
    also have "(if [] @ ?d = [] then ''0'' else [] @ ?d) = decoded_line s"
      by (simp add: Cons False)
    finally show ?thesis .
  qed
qed

lemma tok_run_text:
  "\<forall>l\<in>set lines. valid_line (strip l) \<Longrightarrow>
   tok_run (text_of lines @ rest) ([], out)
   = tok_run rest ([], out @ map (\<lambda>l. decoded_line (strip l)) lines)"
proof (induction lines arbitrary: out)
  case Nil
  then show ?case by (simp add: text_of_def)
next
  case (Cons l ls)
  have "tok_run (text_of (l # ls) @ rest) ([], out)
        = tok_run (line_tokens True (strip l) @ 10 # (text_of ls @ rest)) ([], out)"
    by (simp add: text_of_def)
  also have "\<dots> = tok_run (text_of ls @ rest) ([], out @ [decoded_line (strip l)])"
    using Cons.prems by (intro tok_run_line) simp
  also have "\<dots> = tok_run rest ([], (out @ [decoded_line (strip l)])
                                   @ map (\<lambda>l. decoded_line (strip l)) ls)"
    using Cons.prems by (intro Cons.IH) simp
  finally show ?case by simp
qed

lemma tok_run_eof: "tok_run [0, 0] ([], out) = Some (''-0'', out)"
  by (simp add: num_step_def digit_char_0)

lemma canonical_valid: "canonical s \<Longrightarrow> valid_line s"
  by (cases s) (auto split: if_splits)

lemma canonical_decoded: "canonical s \<Longrightarrow> decoded_line s = s"
proof (cases s)
  case Nil
  then show "canonical s \<Longrightarrow> decoded_line s = s" by simp
next
  case (Cons c cs)
  assume c: "canonical s"
  show "decoded_line s = s"
  proof (cases "c = CHR ''-''")
    case True
    with c Cons have "cs \<noteq> []" "hd cs \<noteq> CHR ''0''" by simp_all
    then have "dropWhile (\<lambda>d. d = CHR ''0'') cs = cs" by (cases cs) auto
    with Cons True show ?thesis by simp
  next
    case False
    with c Cons show ?thesis by (cases "c = CHR ''0''") auto
  qed
qed

lemma line_tokens_range:
  "list_all (\<lambda>c. is_digit c \<or> c = CHR ''-'') s \<Longrightarrow> \<forall>x\<in>set (line_tokens leading s). 0 \<le> x \<and> x \<le> 10"
proof (induction s arbitrary: leading)
  case Nil
  then show ?case by simp
next
  case (Cons c cs)
  from Cons.prems have cs: "list_all (\<lambda>c. is_digit c \<or> c = CHR ''-'') cs"
    and c: "is_digit c \<or> c = CHR ''-''" by simp_all
  have "c \<noteq> CHR ''-'' \<Longrightarrow> 0 \<le> int (of_char c) - 48 \<and> int (of_char c) - 48 \<le> 10"
    using c is_digit_facts(2,3) [of c] by auto
  then show ?case using Cons.IH [OF cs] by auto
qed

lemma text_of_range:
  assumes "\<forall>l\<in>set lines. valid_line (strip l)"
  shows "\<forall>x\<in>set (text_of lines). 0 \<le> x \<and> x \<le> 10"
  using assms line_tokens_range [OF valid_line_chars]
  by (auto simp: text_of_def)

section \<open>The decoder on a stream of code words\<close>

text \<open>
  With a prefix-free table of non-empty codes, the inner loop consumes the code words
  at the front of the buffer exactly as \<open>tok_run\<close> consumes their symbols, and stops
  on a buffer that is a proper prefix of a code word. \<open>seps\<close> counts the separators
  of a symbol list, that is the lines it makes the decoder write.
\<close>

lemma good_codes_nth:
  assumes "good_codes codes" "0 \<le> x" "x \<le> 10"
  shows "nat x < 11" "codes ! nat x \<noteq> []" "binary (codes ! nat x)"
  using assms by (auto simp: good_codes_def binary_def)

lemma good_codes_last:
  assumes "good_codes codes"
  shows "codes \<noteq> [] \<and> last codes = codes ! 10"
proof -
  from assms have l: "length codes = 11" by (simp add: good_codes_def)
  then have ne: "codes \<noteq> []" by auto
  from last_conv_nth [OF ne] l show ?thesis using ne by simp
qed

lemma good_codes_unique:
  assumes g: "good_codes codes" and a: "a < 11" and b: "b < 11"
    and pa: "prefix (codes ! a) buf" and pb: "prefix (codes ! b) buf"
  shows "a = b"
proof -
  from pa pb have "prefix (codes ! a) (codes ! b) \<or> prefix (codes ! b) (codes ! a)"
    by (rule prefix_same_cases)
  with g a b show ?thesis by (auto simp: good_codes_def)
qed

lemma take_prefix_conv:
  "(length c \<le> length buf \<and> take (length c) buf = c) \<longleftrightarrow> prefix c buf"
  by (auto simp: prefix_def) (metis append_take_drop_id)

lemma match_digit_found:
  assumes g: "good_codes codes" and n: "n < 11" and p: "prefix (codes ! n) buf"
  shows "n \<in> set ns \<Longrightarrow> \<forall>m\<in>set ns. m < 11 \<Longrightarrow> match_digit codes buf ns = Inr (Some n)"
proof (induction ns)
  case Nil
  then show ?case by simp
next
  case (Cons m ns)
  from Cons.prems have m: "m < 11" by simp
  from g have l: "length codes = 11" by (simp add: good_codes_def)
  show ?case
  proof (cases "prefix (codes ! m) buf")
    case True
    then have "m = n" using good_codes_unique [OF g m n _ p] by simp
    with True m l show ?thesis by (simp add: take_prefix_conv)
  next
    case False
    then have "m \<noteq> n" using p by auto
    with Cons have "match_digit codes buf ns = Inr (Some n)" by simp
    with False m l show ?thesis by (simp add: take_prefix_conv)
  qed
qed

lemma match_digit_none:
  assumes l: "length codes = 11"
  shows "\<forall>m\<in>set ns. m < 11 \<and> \<not> prefix (codes ! m) buf \<Longrightarrow> match_digit codes buf ns = Inr None"
  using l by (induction ns) (simp_all add: take_prefix_conv)

lemma decode_inner_eof:
  "number s = ''-0'' \<Longrightarrow> decode_inner codes i s = Some (Inr (s\<lparr>writing := False\<rparr>))"
  by (subst decode_inner.simps) simp

lemma decode_inner_stuck:
  assumes g: "good_codes codes" and n: "number s \<noteq> ''-0''"
    and st: "\<forall>m<11. \<not> prefix (codes ! m) (buffer s)"
  shows "decode_inner codes i s = Some (Inr s)"
proof -
  note gl = good_codes_last [OF g]
  from g have l: "length codes = 11" by (simp add: good_codes_def)
  have "\<not> prefix (last codes) (buffer s)" using st gl by simp
  moreover have "match_digit codes (buffer s) [0..<10] = Inr None"
    using st by (intro match_digit_none [OF l]) simp
  ultimately show ?thesis using n gl
    by (subst decode_inner.simps) (simp add: take_prefix_conv)
qed

lemma decode_inner_sep:
  assumes g: "good_codes codes" and n: "number s \<noteq> ''-0''"
    and b: "buffer s = codes ! 10 @ r" and j: "j_count s + 1 \<le> i"
  shows "decode_inner codes i s =
         decode_inner codes i
           (s\<lparr>buffer := r,
              lines_out := lines_out s @ [if number s = [] then ''0'' else number s],
              number := [],
              j_count := j_count s + 1\<rparr>)"
proof -
  note gl = good_codes_last [OF g]
  have "prefix (last codes) (buffer s)" using b gl by simp
  moreover have "drop (length (last codes)) (buffer s) = r" using b gl by simp
  ultimately show ?thesis using n gl j
    by (subst decode_inner.simps) (simp add: take_prefix_conv)
qed

lemma decode_inner_digit:
  assumes g: "good_codes codes" and n: "number s \<noteq> ''-0''"
    and d: "d < 10" and b: "buffer s = codes ! d @ r"
  shows "decode_inner codes i s =
         decode_inner codes i (s\<lparr>number := num_step (number s) d, buffer := r\<rparr>)"
proof -
  note gl = good_codes_last [OF g]
  have pd: "prefix (codes ! d) (buffer s)" using b by simp
  have "\<not> prefix (last codes) (buffer s)"
  proof
    assume "prefix (last codes) (buffer s)"
    then have "prefix (codes ! 10) (buffer s)" using gl by simp
    from good_codes_unique [OF g _ _ this pd] d show False by simp
  qed
  moreover have "match_digit codes (buffer s) [0..<10] = Inr (Some d)"
    using d by (intro match_digit_found [OF g _ pd]) simp_all
  moreover have "drop (length (codes ! d)) (buffer s) = r" using b by simp
  ultimately show ?thesis using n gl
    by (subst decode_inner.simps) (simp add: take_prefix_conv num_step_def)
qed

lemma seps_simps [simp]:
  "seps [] = 0" "seps (x # xs) = (if x = 10 then 1 else 0) + seps xs"
  "seps (xs @ ys) = seps xs + seps ys"
  by (simp_all add: seps_def)

lemma payload_Cons: "payload codes (x # xs) = codes ! nat x @ payload codes xs"
  by (simp add: payload_def)

lemma payload_Nil: "payload codes [] = []"
  by (simp add: payload_def)

lemma tok_run_Some_not_eof: "tok_run (x # xs) (num, out) = Some st \<Longrightarrow> num \<noteq> ''-0''"
  by (auto split: if_splits)

lemma decode_inner_tokens:
  assumes g: "good_codes codes"
  shows "\<forall>x\<in>set ts. 0 \<le> x \<and> x \<le> 10 \<Longrightarrow>
         tok_run ts (number s, lines_out s) = Some (num', out') \<Longrightarrow>
         j_count s + seps ts \<le> i \<Longrightarrow> buffer s = payload codes ts @ r \<Longrightarrow>
         decode_inner codes i s =
         decode_inner codes i
           (s\<lparr>buffer := r, number := num', lines_out := out',
              j_count := j_count s + seps ts\<rparr>)"
proof (induction ts arbitrary: s)
  case Nil
  then have "s\<lparr>buffer := r, number := num', lines_out := out', j_count := j_count s + seps []\<rparr> = s"
    by (simp add: payload_Nil)
  then show ?case by simp
next
  case (Cons x xs)
  from Cons.prems(1) have x: "0 \<le> x" "x \<le> 10" and xs: "\<forall>x\<in>set xs. 0 \<le> x \<and> x \<le> 10"
    by simp_all
  from Cons.prems(2) have ne: "number s \<noteq> ''-0''" by (rule tok_run_Some_not_eof)
  have b: "buffer s = codes ! nat x @ (payload codes xs @ r)"
    using Cons.prems(4) by (simp add: payload_Cons)
  show ?case
  proof (cases "x = 10")
    case True
    let ?s1 = "s\<lparr>buffer := payload codes xs @ r,
                  lines_out := lines_out s @ [if number s = [] then ''0'' else number s],
                  number := [],
                  j_count := j_count s + 1\<rparr>"
    have j: "j_count s + 1 \<le> i" using Cons.prems(3) True by simp
    have "decode_inner codes i s = decode_inner codes i ?s1"
      using b True by (intro decode_inner_sep [OF g ne _ j]) simp
    also have "\<dots> = decode_inner codes i
           (?s1\<lparr>buffer := r, number := num', lines_out := out',
              j_count := j_count ?s1 + seps xs\<rparr>)"
      using Cons.prems(2,3) True ne by (intro Cons.IH [OF xs]) simp_all
    finally show ?thesis using True by simp
  next
    case False
    with x have d: "nat x < 10" by simp
    let ?s1 = "s\<lparr>number := num_step (number s) (nat x), buffer := payload codes xs @ r\<rparr>"
    have "decode_inner codes i s = decode_inner codes i ?s1"
      using b by (intro decode_inner_digit [OF g ne d]) simp
    also have "\<dots> = decode_inner codes i
           (?s1\<lparr>buffer := r, number := num', lines_out := out',
              j_count := j_count ?s1 + seps xs\<rparr>)"
      using Cons.prems(2,3) False ne by (intro Cons.IH [OF xs]) simp_all
    finally show ?thesis using False by simp
  qed
qed

lemma greedy_split:
  "X @ Y = payload codes ts @ Z \<Longrightarrow>
   \<exists>ts1 ts2 r. ts = ts1 @ ts2 \<and> X = payload codes ts1 @ r \<and>
               r @ Y = payload codes ts2 @ Z \<and>
               (ts2 = [] \<or> strict_prefix r (codes ! nat (hd ts2)))"
proof (induction ts arbitrary: X)
  case Nil
  have "[] = [] @ ([]::int list) \<and> X = payload codes [] @ X \<and>
        X @ Y = payload codes [] @ Z" using Nil by (simp add: payload_Nil)
  then show ?case by blast
next
  case (Cons x xs)
  let ?c = "codes ! nat x"
  from Cons.prems have e: "X @ Y = ?c @ payload codes xs @ Z" by (simp add: payload_Cons)
  show ?case
  proof (cases "length ?c \<le> length X")
    case True
    from e True have px: "take (length ?c) X = ?c"
      by (metis append_eq_append_conv_if append_eq_conv_conj)
    then have X: "X = ?c @ drop (length ?c) X" by (metis append_take_drop_id)
    with e have "?c @ drop (length ?c) X @ Y = ?c @ payload codes xs @ Z" by (metis append_assoc)
    then have "drop (length ?c) X @ Y = payload codes xs @ Z" by simp
    from Cons.IH [OF this] obtain ts1 ts2 r where
      s: "xs = ts1 @ ts2" "drop (length ?c) X = payload codes ts1 @ r"
         "r @ Y = payload codes ts2 @ Z"
         "ts2 = [] \<or> strict_prefix r (codes ! nat (hd ts2))" by blast
    have "x # xs = (x # ts1) @ ts2" using s(1) by simp
    moreover have "X = payload codes (x # ts1) @ r"
      using X s(2) by (simp add: payload_Cons)
    ultimately show ?thesis using s(3,4) by blast
  next
    case False
    then have lt: "length X < length ?c" by simp
    from e lt have "X = take (length X) ?c"
      by (metis append_eq_append_conv_if append_eq_conv_conj less_imp_le_nat)
    then have "prefix X ?c" by (metis take_is_prefix)
    with lt have sp: "strict_prefix X ?c" by (auto simp: strict_prefix_def)
    have "x # xs = [] @ (x # xs) \<and> X = payload codes [] @ X \<and>
          X @ Y = payload codes (x # xs) @ Z \<and> strict_prefix X (codes ! nat (hd (x # xs)))"
      using Cons.prems sp by (simp add: payload_Nil)
    then show ?thesis by blast
  qed
qed

lemma strict_prefix_stuck:
  assumes g: "good_codes codes" and x: "0 \<le> x" "x \<le> 10"
    and sp: "strict_prefix r (codes ! nat x)"
  shows "\<forall>m<11. \<not> prefix (codes ! m) r"
proof (intro allI impI notI)
  fix m assume m: "m < 11" and p: "prefix (codes ! m) r"
  from sp have pr: "prefix r (codes ! nat x)" and ne: "r \<noteq> codes ! nat x"
    by (simp_all add: strict_prefix_def)
  from p pr have "prefix (codes ! m) (codes ! nat x)" by (rule prefix_order.trans)
  with g m x have "m = nat x" by (auto simp: good_codes_def)
  with p pr ne show False by (simp add: prefix_order.antisym)
qed

lemma decode_loop_done: "\<not> writing s \<Longrightarrow> decode_loop codes i src s = Some (Inr s)"
  by (cases src) simp_all

lemma decode_loop_spec:
  assumes g: "good_codes codes"
  shows "src \<noteq> [] \<Longrightarrow> ts \<noteq> [] \<Longrightarrow> writing s \<Longrightarrow>
         \<forall>x\<in>set ts. 0 \<le> x \<and> x \<le> 10 \<Longrightarrow>
         buffer s @ bits_of src = payload codes ts @ Z \<Longrightarrow>
         tok_run ts (number s, lines_out s) = Some (''-0'', out') \<Longrightarrow>
         j_count s + seps ts \<le> i \<Longrightarrow>
         \<exists>s'. decode_loop codes i src s = Some (Inr s') \<and> lines_out s' = out' \<and>
              j_count s' = j_count s + seps ts \<and> number s' = ''-0'' \<and> \<not> writing s'"
proof (induction src arbitrary: s ts)
  case Nil
  then show ?case by simp
next
  case (Cons w src)
  let ?s0 = "s\<lparr>buffer := buffer s @ fmt_b 8 (uint w)\<rparr>"
  have "(buffer s @ fmt_b 8 (uint w)) @ bits_of src = payload codes ts @ Z"
    using Cons.prems(5) by (simp add: bits_of_Cons)
  from greedy_split [OF this] obtain ts1 ts2 r where
    ts: "ts = ts1 @ ts2" and X: "buffer s @ fmt_b 8 (uint w) = payload codes ts1 @ r"
    and Y: "r @ bits_of src = payload codes ts2 @ Z"
    and e: "ts2 = [] \<or> strict_prefix r (codes ! nat (hd ts2))" by blast
  from Cons.prems(4) ts have r1: "\<forall>x\<in>set ts1. 0 \<le> x \<and> x \<le> 10"
    and r2: "\<forall>x\<in>set ts2. 0 \<le> x \<and> x \<le> 10" by simp_all
  from Cons.prems(6) ts obtain num1 out1 where
    t1: "tok_run ts1 (number s, lines_out s) = Some (num1, out1)"
    and t2: "tok_run ts2 (num1, out1) = Some (''-0'', out')"
    by (auto simp: tok_run_append split: option.splits)
  have j1: "j_count ?s0 + seps ts1 \<le> i" using Cons.prems(7) ts by simp
  let ?s1 = "s\<lparr>buffer := r, number := num1, lines_out := out1,
                j_count := j_count s + seps ts1\<rparr>"
  have "decode_inner codes i ?s0 =
        decode_inner codes i (?s0\<lparr>buffer := r, number := num1, lines_out := out1,
                                j_count := j_count ?s0 + seps ts1\<rparr>)"
    using t1 j1 X by (intro decode_inner_tokens [OF g r1]) simp_all
  then have inner: "decode_inner codes i ?s0 = decode_inner codes i ?s1" by simp
  show ?case
  proof (cases "ts2 = []")
    case True
    with t2 have "num1 = ''-0''" "out1 = out'" by simp_all
    then have "decode_inner codes i ?s1 = Some (Inr (?s1\<lparr>writing := False\<rparr>))"
      by (intro decode_inner_eof) simp
    with inner have "decode_loop codes i (w # src) s
                     = decode_loop codes i src (?s1\<lparr>writing := False\<rparr>)"
      using Cons.prems(3) by simp
    also have "\<dots> = Some (Inr (?s1\<lparr>writing := False\<rparr>))"
      by (rule decode_loop_done) simp
    finally show ?thesis using True ts \<open>num1 = ''-0''\<close> \<open>out1 = out'\<close> by simp
  next
    case False
    then obtain x xs where c: "ts2 = x # xs" by (cases ts2) auto
    with e have sp: "strict_prefix r (codes ! nat x)" by simp
    from r2 c have x: "0 \<le> x" "x \<le> 10" by simp_all
    from t2 c have ne: "num1 \<noteq> ''-0''" using tok_run_Some_not_eof by blast
    have "decode_inner codes i ?s1 = Some (Inr ?s1)"
      using strict_prefix_stuck [OF g x sp] ne
      by (intro decode_inner_stuck [OF g]) simp_all
    with inner have step: "decode_loop codes i (w # src) s = decode_loop codes i src ?s1"
      using Cons.prems(3) by simp
    have "length r < length (codes ! nat x)"
      using sp by (metis prefix_length_less)
    with Y c have "bits_of src \<noteq> []" by (auto simp: payload_Cons dest: arg_cong [of _ _ length])
    then have sne: "src \<noteq> []" by (auto simp: bits_of_Nil)
    have "\<exists>s'. decode_loop codes i src ?s1 = Some (Inr s') \<and> lines_out s' = out' \<and>
              j_count s' = j_count ?s1 + seps ts2 \<and> number s' = ''-0'' \<and> \<not> writing s'"
      using Cons.prems(3,7) Y t2 ts
      by (intro Cons.IH [OF sne False _ r2]) simp_all
    then show ?thesis using step ts by (simp add: add.assoc)
  qed
qed

section \<open>Encoding then decoding\<close>

subsection \<open>The statistics\<close>

lemma infos_loop_spec:
  "\<forall>n\<in>set ns. n < length counts \<and> n < length codes \<Longrightarrow>
   \<exists>bits'. infos_loop counts codes ns (bits, count)
            = Inr (bits', count + sum_list (map (\<lambda>n. counts ! n) ns))"
proof (induction ns arbitrary: bits count)
  case Nil
  then show ?case by simp
next
  case (Cons n ns)
  from Cons.prems have n: "n < length counts" "n < length codes"
    and ns: "\<forall>n\<in>set ns. n < length counts \<and> n < length codes" by simp_all
  from Cons.IH [OF ns, of "bits + counts ! n * int (length (codes ! n))" "count + counts ! n"]
  show ?case using n by (simp add: add.assoc)
qed

lemma sum_list_nonneg_member:
  fixes xs :: "int list"
  shows "\<forall>x\<in>set xs. 0 \<le> x \<Longrightarrow> y \<in> set xs \<Longrightarrow> y \<le> sum_list xs"
proof (induction xs)
  case Nil
  then show ?case by simp
next
  case (Cons x xs)
  then have "0 \<le> sum_list xs" by (intro sum_list_nonneg) simp
  with Cons show ?case by auto
qed

lemma infos_ok:
  assumes c: "cnt_ok counts" and p: "1 \<le> counts ! 10" and l: "length codes = 11"
  shows "\<exists>st. infos counts codes = Inr st"
proof -
  from c have lc: "length counts = 11" and nn: "\<forall>x\<in>set counts. 0 \<le> x"
    by (simp_all add: cnt_ok_def)
  have "\<forall>n\<in>set [0..<11]. n < length counts \<and> n < length codes" using lc l by simp
  from infos_loop_spec [OF this, of 0 0] obtain bits' where
    r: "infos_loop counts codes [0..<11] (0, 0)
        = Inr (bits', 0 + sum_list (map (\<lambda>n. counts ! n) [0..<11]))" by blast
  have "map (\<lambda>n. counts ! n) [0..<11] = counts" using map_nth [of counts] lc by simp
  moreover have "counts ! 10 \<le> sum_list counts"
    using nn lc by (intro sum_list_nonneg_member) simp_all
  ultimately have "sum_list (map (\<lambda>n. counts ! n) [0..<11]) \<noteq> 0" using p by simp
  with r show ?thesis by (simp add: infos_def)
qed

lemma infos_zero:
  assumes l: "length codes = 11"
  shows "infos (replicate 11 0) codes = Inl ZeroDivisionError"
proof -
  have "\<forall>n\<in>set [0..<11]. n < length (replicate 11 (0::int)) \<and> n < length codes" using l by simp
  from infos_loop_spec [OF this, of 0 0] obtain bits' where
    r: "infos_loop (replicate 11 0) codes [0..<11] (0, 0)
        = Inr (bits', 0 + sum_list (map (\<lambda>n. replicate 11 (0::int) ! n) [0..<11]))" by blast
  have "map (\<lambda>n. replicate 11 (0::int) ! n) [0..<11] = replicate 11 0"
    using map_nth [of "replicate 11 (0::int)"] by simp
  then have "sum_list (map (\<lambda>n. replicate 11 (0::int) ! n) [0..<11]) = 0"
    by (simp add: sum_list_replicate)
  with r show ?thesis by (simp add: infos_def)
qed

subsection \<open>The payload is longer than the nibble that follows the header\<close>

lemma payload_min:
  assumes g: "good_codes codes"
  shows "\<forall>x\<in>set ts. 0 \<le> x \<and> x \<le> 10 \<Longrightarrow> length ts \<le> length (payload codes ts)"
proof (induction ts)
  case Nil
  then show ?case by (simp add: payload_Nil)
next
  case (Cons x xs)
  then have "codes ! nat x \<noteq> []" using good_codes_nth(2) [OF g, of x] by simp
  then have "1 \<le> length (codes ! nat x)" by (cases "codes ! nat x") simp_all
  with Cons show ?case by (simp add: payload_Cons)
qed

lemma single_char_binary:
  assumes "binary c" "length c = 1"
  shows "c = ''0'' \<or> c = ''1''"
proof -
  from assms(2) obtain a where "c = [a]" by (cases c) auto
  with assms(1) show ?thesis by simp
qed

lemma two_short_codes:
  assumes g: "good_codes codes"
  shows "3 \<le> length (codes ! 0) + length (codes ! 10)"
proof (rule ccontr)
  assume "\<not> 3 \<le> length (codes ! 0) + length (codes ! 10)"
  moreover have n0: "codes ! 0 \<noteq> []" and n10: "codes ! 10 \<noteq> []" and n1: "codes ! 1 \<noteq> []"
    and b0: "binary (codes ! 0)" and b10: "binary (codes ! 10)" and b1: "binary (codes ! 1)"
    using g by (simp_all add: good_codes_def binary_def)
  ultimately have "length (codes ! 0) + length (codes ! 10) < 3"
    and "0 < length (codes ! 0)" and "0 < length (codes ! 10)" by simp_all
  then have l: "length (codes ! 0) = 1" "length (codes ! 10) = 1" by linarith+
  from g have pf: "\<And>a b. a < 11 \<Longrightarrow> b < 11 \<Longrightarrow> prefix (codes ! a) (codes ! b) \<Longrightarrow> a = b"
    by (simp add: good_codes_def)
  note s0 = single_char_binary [OF b0 l(1)] and s10 = single_char_binary [OF b10 l(2)]
  have ne: "codes ! 0 \<noteq> codes ! 10" using pf [of 0 10] by auto
  obtain a as where c1: "codes ! 1 = a # as" using n1 by (cases "codes ! 1") auto
  with b1 have "a = CHR ''0'' \<or> a = CHR ''1''" by simp
  have "prefix [a] (codes ! 1)" using c1 by simp
  moreover have "codes ! 0 = [a] \<or> codes ! 10 = [a]"
    using s0 s10 ne \<open>a = CHR ''0'' \<or> a = CHR ''1''\<close> by metis
  ultimately have "prefix (codes ! 0) (codes ! 1) \<or> prefix (codes ! 10) (codes ! 1)"
    by metis
  then show False using pf [of 0 1] pf [of 10 1] by auto
qed

lemma tree_single_zero:
  "tree [0, 0, 0, 0, 0, 0, 0, 0, 0, 0, 1] =
     Inr [11, 11, 12, 12, 13, 13, 14, 14, 15, 15, 20, 16, 16, 17, 17, 18, 18, 19, 19, 20, 26]"
  by code_simp

lemma huffman_single_zero:
  "huffman [11, 11, 12, 12, 13, 13, 14, 14, 15, 15, 20, 16, 16, 17, 17, 18, 18, 19, 19, 20, 26] =
     [''00011'', ''00010'', ''00001'', ''00000'', ''0111'', ''0110'', ''0101'', ''0100'',
      ''0011'', ''0010'', ''1'']"
  by code_simp

subsection \<open>Encoding and decoding a file of valid lines\<close>

lemma line_tokens_no_sep:
  "list_all (\<lambda>c. is_digit c \<or> c = CHR ''-'') s \<Longrightarrow> seps (line_tokens leading s) = 0"
proof (induction s arbitrary: leading)
  case Nil
  then show ?case by simp
next
  case (Cons c cs)
  from Cons.prems have cs: "list_all (\<lambda>c. is_digit c \<or> c = CHR ''-'') cs"
    and c: "is_digit c \<or> c = CHR ''-''" by simp_all
  have "c \<noteq> CHR ''-'' \<Longrightarrow> int (of_char c) - 48 \<noteq> 10"
    using c is_digit_facts(3) [of c] by auto
  then show ?case using Cons.IH [OF cs] by auto
qed

lemma seps_text_of:
  "\<forall>l\<in>set lines. valid_line (strip l) \<Longrightarrow> seps (text_of lines) = length lines"
proof (induction lines)
  case Nil
  then show ?case by (simp add: text_of_def)
next
  case (Cons l ls)
  then have "seps (line_tokens True (strip l)) = 0"
    by (intro line_tokens_no_sep valid_line_chars) simp
  moreover have "text_of (l # ls) = line_tokens True (strip l) @ [10] @ text_of ls"
    by (simp add: text_of_def)
  ultimately show ?case using Cons by simp
qed

lemma text_of_snoc: "text_of (ls @ [l]) = (text_of ls @ line_tokens True (strip l)) @ [10]"
  by (simp add: text_of_def)

lemma good_codes_tokens_ok:
  assumes g: "good_codes codes" and r: "\<forall>x\<in>set ts. 0 \<le> x \<and> x \<le> 10"
  shows "tokens_ok codes ts"
proof -
  from g have l: "length codes = 11" by (simp add: good_codes_def)
  have "\<forall>c\<in>set codes. binary c"
  proof
    fix c assume "c \<in> set codes"
    then obtain a where "a < 11" "codes ! a = c" using l by (auto simp: in_set_conv_nth)
    with g show "binary c" by (auto simp: good_codes_def binary_def)
  qed
  with r l show ?thesis by (auto simp: tokens_ok_def)
qed

lemma text_of_Nil_conv: "text_of lines = [] \<longleftrightarrow> lines = []"
  by (cases lines) (simp_all add: text_of_def)

lemma payload_length_single_zero:
  assumes v: "valid_line (strip l)" and z: "line_tokens True (strip l) = []"
    and ri: "read_input [l] (0, [], replicate 11 0) = Inr (i, toks, counts)"
    and t: "tree counts = Inr t"
  shows "length (huffman t ! 0) = 5 \<and> length (huffman t ! 10) = 1"
proof -
  from read_input_single_zero [OF v z] ri
  have "counts = [0, 0, 0, 0, 0, 0, 0, 0, 0, 0, 1]" by simp
  with t tree_single_zero
  have "t = [11, 11, 12, 12, 13, 13, 14, 14, 15, 15, 20, 16, 16, 17, 17, 18, 18, 19, 19, 20, 26]"
    by simp
  then show ?thesis by (simp only: huffman_single_zero) simp
qed

lemma payload_length_min:
  assumes v: "\<forall>l\<in>set lines. valid_line (strip l)" and ne: "lines \<noteq> []"
    and ri: "read_input lines (0, [], replicate 11 0) = Inr (i, toks, counts)"
    and t: "tree counts = Inr t" and g: "good_codes (huffman t)"
  shows "5 \<le> length (payload (huffman t) (text_of lines @ [0, 0]))"
proof -
  let ?codes = "huffman t"
  from ne obtain ls l where ll: "lines = ls @ [l]" by (cases lines rule: rev_cases) auto
  let ?T = "text_of ls @ line_tokens True (strip l)"
  have tx: "text_of lines @ [0, 0] = ?T @ [10, 0, 0]" by (simp add: ll text_of_snoc)
  have len: "length (payload ?codes (text_of lines @ [0, 0]))
        = length (payload ?codes ?T) + length (?codes ! 10) + 2 * length (?codes ! 0)"
    by (simp only: tx payload_append) (simp add: payload_Cons payload_Nil)
  have c0: "1 \<le> length (?codes ! 0)"
    using good_codes_nth(2) [OF g, of 0] by (cases "?codes ! 0") simp_all
  show ?thesis
  proof (cases "?T = []")
    case True
    then have "ls = []" and z: "line_tokens True (strip l) = []"
      by (simp_all add: text_of_Nil_conv)
    with ll have l1: "lines = [l]" by simp
    from v l1 have vl: "valid_line (strip l)" by simp
    from payload_length_single_zero [OF vl z _ t] ri l1
    have "length (?codes ! 0) = 5 \<and> length (?codes ! 10) = 1" by simp
    with len show ?thesis by simp
  next
    case False
    have "\<forall>x\<in>set (text_of lines). 0 \<le> x \<and> x \<le> 10" by (rule text_of_range [OF v])
    then have "\<forall>x\<in>set ?T. 0 \<le> x \<and> x \<le> 10" by (simp add: ll text_of_snoc)
    from payload_min [OF g this] False have "1 \<le> length (payload ?codes ?T)"
      by (cases ?T) simp_all
    with two_short_codes [OF g] c0 len show ?thesis by simp
  qed
qed

lemma roundtrip_valid:
  assumes v: "\<forall>l\<in>set lines. valid_line (strip l)" and ne: "lines \<noteq> []"
  shows "\<exists>fl s. ENCODE lines = Inr (fl, length lines) \<and>
           DECODE fl (length lines) = Some (Inr s) \<and>
           lines_out s = map (\<lambda>l. decoded_line (strip l)) lines \<and>
           j_count s = length lines \<and> number s = ''-0'' \<and> \<not> writing s"
proof -
  have ok0: "cnt_ok (replicate 11 0)" by (simp add: cnt_ok_def)
  from read_input_spec [OF ok0 v, of 0 "[]"] obtain counts where
    ri: "read_input lines (0, [], replicate 11 0) = Inr (length lines, text_of lines, counts)"
    and ok: "cnt_ok counts" and c10: "int (length lines) \<le> counts ! 10" by auto
  from ok have lc: "length counts = 11" by (simp add: cnt_ok_def)
  from tree_wf [OF lc] obtain t where t: "tree counts = Inr t" and wf: "wf_tree t" by blast
  let ?codes = "huffman t"
  let ?text = "text_of lines @ [0, 0]"
  let ?TP = "tail_pad (payload ?codes ?text)"
  note g = wf_tree_good_codes [OF wf]
  from g have l11: "length ?codes = 11" by (simp add: good_codes_def)
  have p1: "1 \<le> counts ! 10" using c10 ne by (cases lines) simp_all
  from infos_ok [OF ok p1 l11] obtain st where inf: "infos counts ?codes = Inr st" by blast
  have rng: "\<forall>x\<in>set ?text. 0 \<le> x \<and> x \<le> 10" using text_of_range [OF v] by simp
  note tok = good_codes_tokens_ok [OF g rng]
  from header_roundtrip [OF wf tok] obtain fl src where
    w: "write_output t ?codes ?text = Inr fl"
    and rh: "read_header fl [] = Inr (t, take 4 ?TP, src)"
    and bs: "bits_of src = drop 4 ?TP" by blast
  have enc: "ENCODE lines = Inr (fl, length lines)"
    using ri t inf w by (simp add: ENCODE_def)
  have "5 \<le> length (payload ?codes ?text)" by (rule payload_length_min [OF v ne ri t g])
  then have "5 \<le> length ?TP" by (simp add: tail_pad_def)
  then have "bits_of src \<noteq> []" using bs by simp
  then have sne: "src \<noteq> []" by (auto simp: bits_of_Nil)
  let ?s0 = "\<lparr>buffer = take 4 ?TP, number = [], lines_out = [], j_count = 0, writing = True\<rparr>"
  have bits: "buffer ?s0 @ bits_of src = payload ?codes ?text
                @ replicate ((8 - (84 + length (payload ?codes ?text)) mod 8) mod 8) (CHR ''0'')"
    by (simp add: bs) (simp add: tail_pad_def)
  have run: "tok_run ?text (number ?s0, lines_out ?s0)
             = Some (''-0'', map (\<lambda>l. decoded_line (strip l)) lines)"
  proof -
    have "tok_run ?text ([], []) = tok_run [0, 0] ([], [] @ map (\<lambda>l. decoded_line (strip l)) lines)"
      by (rule tok_run_text [OF v])
    also have "\<dots> = Some (''-0'', [] @ map (\<lambda>l. decoded_line (strip l)) lines)"
      by (rule tok_run_eof)
    finally show ?thesis by simp
  qed
  have j: "j_count ?s0 + seps ?text \<le> length lines" by (simp add: seps_text_of [OF v])
  from decode_loop_spec [OF g sne _ _ rng bits run j] obtain s where
    dl: "decode_loop ?codes (length lines) src ?s0 = Some (Inr s)"
    and r: "lines_out s = map (\<lambda>l. decoded_line (strip l)) lines"
      "j_count s = j_count ?s0 + seps ?text" "number s = ''-0''" "\<not> writing s"
    by auto
  have "DECODE fl (length lines) = Some (Inr s)" using rh dl by (simp add: DECODE_def)
  with enc r show ?thesis by (simp add: seps_text_of [OF v])
qed

section \<open>Claims about the header\<close>

lemma nth_byte_bits:
  "k < length fl \<Longrightarrow> fmt_b 8 (uint (fl ! k)) = take 8 (drop (8 * k) (bits_of fl))"
proof (induction fl arbitrary: k)
  case Nil
  then show ?case by simp
next
  case (Cons w ws)
  show ?case
  proof (cases k)
    case 0
    then show ?thesis by (simp add: bits_of_Cons fmt_b8_length)
  next
    case (Suc m)
    with Cons.prems have "m < length ws" by simp
    from Cons.IH [OF this] Suc show ?thesis by (simp add: bits_of_Cons fmt_b8_length)
  qed
qed

lemma header_bits_append: "header_bits (xs @ ys) = header_bits xs @ header_bits ys"
  by (simp add: header_bits_def)

lemma take4_tail_pad:
  assumes "4 \<le> length (tail_pad p)"
  shows "take 4 (tail_pad p) = take 4 (p @ ''0000'')"
proof -
  let ?k = "(8 - (84 + length p) mod 8) mod 8"
  from assms have k: "4 - length p \<le> ?k" by (simp add: tail_pad_def)
  have z: "''0000'' = replicate 4 (CHR ''0'')" by (simp add: numeral_eq_Suc)
  have "take 4 (tail_pad p) = take 4 p @ replicate (min (4 - length p) ?k) (CHR ''0'')"
    by (simp add: tail_pad_def)
  also have "min (4 - length p) ?k = min (4 - length p) 4" using k by simp
  also have "take 4 p @ replicate (min (4 - length p) 4) (CHR ''0'') = take 4 (p @ ''0000'')"
    by (simp only: z take_append take_replicate)
  finally show ?thesis .
qed

lemma byte10:
  assumes wf: "wf_tree t" and b: "bits_of fl = header_bits t @ tail_pad p"
  shows "10 < length fl" and "fmt_b 8 (uint (fl ! 10)) = ''1111'' @ take 4 (p @ ''0000'')"
proof -
  note h = wf_tree_header_bits [OF wf]
  note l4 = tail_pad_length [OF b h(1)]
  have "8 * length fl = 84 + length (tail_pad p)"
    using bits_of_length [of fl] b h(1) by simp
  with l4 show len: "10 < length fl" by simp
  note s = wf_tree_split [OF wf]
  have e: "\<forall>x\<in>set (butlast t). 11 \<le> x \<and> x \<le> 26" using s(3) by auto
  have l80: "length (header_bits (butlast t)) = 80"
    using header_bits_length [OF e] s(2) by simp
  have "header_bits t = header_bits (butlast t) @ ''1111''"
    using s(1) header_bits_append [of "butlast t" "[root]"]
    by (simp add: header_bits_Cons header_bits_Nil field_root)
  then have "bits_of fl = header_bits (butlast t) @ ''1111'' @ tail_pad p" using b by simp
  then have "drop 80 (bits_of fl) = ''1111'' @ tail_pad p" using l80 by simp
  then have "take 8 (drop (8 * 10) (bits_of fl)) = ''1111'' @ take 4 (tail_pad p)" by simp
  with nth_byte_bits [OF len] take4_tail_pad [OF l4]
  show "fmt_b 8 (uint (fl ! 10)) = ''1111'' @ take 4 (p @ ''0000'')" by simp
qed

lemma tok_run_prefix:
  assumes "tok_run (p @ x # q) s = Some r"
  shows "\<exists>num out. tok_run p s = Some (num, out) \<and> num \<noteq> ''-0''"
proof -
  from assms obtain num out where p: "tok_run p s = Some (num, out)"
    and q: "tok_run (x # q) (num, out) = Some r"
    by (auto simp: tok_run_append split: option.splits)
  from q have "num \<noteq> ''-0''" by (rule tok_run_Some_not_eof)
  with p show ?thesis by blast
qed

lemma tok_run_after_sep: "tok_run (p @ [10]) s = Some (num, out) \<Longrightarrow> num = []"
  by (auto simp: tok_run_append split: option.splits if_splits prod.splits)

text \<open>
  Claim C3. For every tree array \<open>t\<close> the tree builder produces from an 11-entry
  table, and every list of alphabet symbols written after it: the header is
  \<open>length t\<close> four-bit fields (parent minus 11, 0xF for the root); reading the file
  back stops at the root field and returns a header equal to \<open>t\<close>, hence the same code
  table; and the bits it has not consumed (the buffer and the unread bytes) are exactly
  the bits of the file after the header fields. No length is passed to the reader.
\<close>

theorem header_self_delimiting:
  assumes len: "length symbol_counts = 11" and t: "tree symbol_counts = Inr t"
    and toks: "\<forall>x\<in>set toks. 0 \<le> x \<and> x \<le> 10"
  shows "\<exists>fl header buf src.
           write_output t (huffman t) toks = Inr fl \<and>
           read_header fl [] = Inr (header, buf, src) \<and>
           header = t \<and> huffman header = huffman t \<and>
           length (header_bits t) = 4 * length t \<and>
           bits_of fl = header_bits t @ buf @ bits_of src"
proof -
  from tree_wf [OF len] t have wf: "wf_tree t" by simp
  note g = wf_tree_good_codes [OF wf]
  note tok = good_codes_tokens_ok [OF g toks]
  let ?TP = "tail_pad (payload (huffman t) toks)"
  from header_roundtrip [OF wf tok] obtain fl src where
    w: "write_output t (huffman t) toks = Inr fl"
    and b: "bits_of fl = header_bits t @ ?TP"
    and rh: "read_header fl [] = Inr (t, take 4 ?TP, src)"
    and bs: "bits_of src = drop 4 ?TP" by blast
  have "length (header_bits t) = 4 * length t"
    using wf_tree_header_bits(1) [OF wf] wf by (simp add: wf_tree_def)
  moreover have "bits_of fl = header_bits t @ take 4 ?TP @ bits_of src"
    using b bs by simp
  ultimately show ?thesis using w rh by blast
qed

theorem header_self_delimiting_witness:
  "length [0, 0, 0, 0, 0, 0, 0, 0, 0, 0, 0 :: int] = 11 \<and>
   tree [0, 0, 0, 0, 0, 0, 0, 0, 0, 0, 0] =
     Inr [11, 11, 12, 12, 13, 13, 14, 14, 15, 15, 16, 16, 17, 17, 18, 18, 19, 19, 20, 20, 26] \<and>
   (\<exists>fl header buf src.
      write_output
        [11, 11, 12, 12, 13, 13, 14, 14, 15, 15, 16, 16, 17, 17, 18, 18, 19, 19, 20, 20, 26]
        (huffman
          [11, 11, 12, 12, 13, 13, 14, 14, 15, 15, 16, 16, 17, 17, 18, 18, 19, 19, 20, 20, 26])
        [0, 0] = Inr fl \<and>
      read_header fl [] = Inr (header, buf, src) \<and>
      header = [11, 11, 12, 12, 13, 13, 14, 14, 15, 15, 16, 16, 17, 17, 18, 18, 19, 19, 20, 20, 26] \<and>
      bits_of fl =
        header_bits
          [11, 11, 12, 12, 13, 13, 14, 14, 15, 15, 16, 16, 17, 17, 18, 18, 19, 19, 20, 20, 26]
        @ buf @ bits_of src)"
  using header_self_delimiting [of "[0, 0, 0, 0, 0, 0, 0, 0, 0, 0, 0]"
      "[11, 11, 12, 12, 13, 13, 14, 14, 15, 15, 16, 16, 17, 17, 18, 18, 19, 19, 20, 20, 26]"
      "[0, 0]"]
  by (simp add: tree_zero_counts) blast

text \<open>
  Claim C10. For every 11-entry frequency table the tree builder returns an array of
  exactly 21 entries, the serialized header is exactly 84 bits, and in the file written
  after it the 11th byte holds the root sentinel 1111 in its high nibble and the first
  four bits after the header (payload, then padding) in its low nibble; the header
  reader consumes exactly 11 bytes and hands that low nibble on as the buffer.
\<close>

theorem header_is_84_bits:
  assumes len: "length symbol_counts = 11"
    and toks: "\<forall>x\<in>set toks. 0 \<le> x \<and> x \<le> 10"
  shows "\<exists>t fl. tree symbol_counts = Inr t \<and> length t = 21 \<and>
           length (header_bits t) = 84 \<and>
           write_output t (huffman t) toks = Inr fl \<and> 10 < length fl \<and>
           fmt_b 8 (uint (fl ! 10)) = ''1111'' @ take 4 (payload (huffman t) toks @ ''0000'') \<and>
           read_header fl [] = Inr (t, take 4 (payload (huffman t) toks @ ''0000''), drop 11 fl)"
proof -
  from tree_wf [OF len] obtain t where t: "tree symbol_counts = Inr t" and wf: "wf_tree t"
    by blast
  note g = wf_tree_good_codes [OF wf]
  note tok = good_codes_tokens_ok [OF g toks]
  let ?p = "payload (huffman t) toks"
  from header_roundtrip [OF wf tok] obtain fl src where
    w: "write_output t (huffman t) toks = Inr fl"
    and b: "bits_of fl = header_bits t @ tail_pad ?p"
    and rh: "read_header fl [] = Inr (t, take 4 (tail_pad ?p), src)"
    and src: "src = drop 11 fl" by blast
  note h = wf_tree_header_bits [OF wf]
  note t4 = take4_tail_pad [OF tail_pad_length [OF b h(1)]]
  note b10 = byte10 [OF wf b]
  from wf have "length t = 21" by (simp add: wf_tree_def)
  with t h(1) w b10 rh src t4 show ?thesis by auto
qed

theorem header_is_84_bits_witness:
  "length [0, 0, 0, 0, 0, 0, 0, 0, 0, 0, 0 :: int] = 11 \<and>
   (\<exists>t fl. tree [0, 0, 0, 0, 0, 0, 0, 0, 0, 0, 0] = Inr t \<and> length t = 21 \<and>
      length (header_bits t) = 84 \<and>
      write_output t (huffman t) [0, 0] = Inr fl \<and> 10 < length fl \<and>
      fmt_b 8 (uint (fl ! 10)) = ''1111'' @ take 4 (payload (huffman t) [0, 0] @ ''0000''))"
  using header_is_84_bits [of "[0, 0, 0, 0, 0, 0, 0, 0, 0, 0, 0]" "[0, 0]"]
  by simp blast

section \<open>Claims about the token stream\<close>

lemma read_input_text:
  assumes v: "\<forall>l\<in>set lines. valid_line (strip l)"
    and ri: "read_input lines (0, [], replicate 11 0) = Inr (i, toks, counts)"
  shows "toks = text_of lines" and "i = length lines"
proof -
  have ok0: "cnt_ok (replicate 11 0)" by (simp add: cnt_ok_def)
  from read_input_spec [OF ok0 v, of 0 "[]"] ri
  show "toks = text_of lines" and "i = length lines" by auto
qed

lemma tok_run_payload:
  assumes v: "\<forall>l\<in>set lines. valid_line (strip l)"
  shows "tok_run (text_of lines @ [0, 0]) ([], [])
         = Some (''-0'', map (\<lambda>l. decoded_line (strip l)) lines)"
proof -
  have "tok_run (text_of lines @ [0, 0]) ([], [])
        = tok_run [0, 0] ([], [] @ map (\<lambda>l. decoded_line (strip l)) lines)"
    by (rule tok_run_text [OF v])
  also have "\<dots> = Some (''-0'', [] @ map (\<lambda>l. decoded_line (strip l)) lines)"
    by (rule tok_run_eof)
  finally show ?thesis by simp
qed

lemma payload_prefix_safe:
  assumes v: "\<forall>l\<in>set lines. valid_line (strip l)" and p: "prefix p (text_of lines)"
  shows "\<exists>num out. tok_run p ([], []) = Some (num, out) \<and> num \<noteq> ''-0''"
proof -
  from p obtain q where "text_of lines = p @ q" by (auto simp: prefix_def)
  then have "text_of lines @ [0, 0] = p @ hd (q @ [0, 0]) # tl (q @ [0, 0])" by simp
  with tok_run_payload [OF v]
  have "tok_run (p @ hd (q @ [0, 0]) # tl (q @ [0, 0])) ([], [])
        = Some (''-0'', map (\<lambda>l. decoded_line (strip l)) lines)" by simp
  then show ?thesis by (rule tok_run_prefix)
qed

lemma no_leading_double_zero:
  assumes v: "\<forall>l\<in>set lines. valid_line (strip l)"
    and k: "Suc k < length (text_of lines)"
    and z: "text_of lines ! k = 0" "text_of lines ! Suc k = 0"
  shows "0 < k \<and> text_of lines ! (k - 1) \<noteq> 10"
proof (rule ccontr)
  let ?T = "text_of lines"
  assume n: "\<not> (0 < k \<and> ?T ! (k - 1) \<noteq> 10)"
  have tk: "take (Suc (Suc k)) ?T = take k ?T @ [0, 0]"
    using k z by (simp add: take_Suc_conv_app_nth)
  have "prefix (take (Suc (Suc k)) ?T) ?T" by (rule take_is_prefix)
  from payload_prefix_safe [OF v this] obtain num out where
    r: "tok_run (take k ?T @ [0, 0]) ([], []) = Some (num, out)" and ne: "num \<noteq> ''-0''"
    by (auto simp: tk)
  from r obtain n0 o0 where r0: "tok_run (take k ?T) ([], []) = Some (n0, o0)"
    and r1: "tok_run [0, 0] (n0, o0) = Some (num, out)"
    by (auto simp: tok_run_append split: option.splits)
  have "n0 = []"
  proof (cases k)
    case 0
    with r0 show ?thesis by simp
  next
    case (Suc m)
    with n have "?T ! m = 10" by simp
    then have "take k ?T = take m ?T @ [10]"
      using k Suc by (simp add: take_Suc_conv_app_nth)
    with r0 show ?thesis using tok_run_after_sep by metis
  qed
  with r1 have "tok_run [0, 0] ([], o0) = Some (num, out)" by simp
  then have "num = ''-0''" by (simp only: tok_run_eof) simp
  with ne show False by simp
qed

lemma read_input_100:
  "read_input [''100''] (0, [], replicate 11 0)
     = Inr (1, [1, 0, 0, 10], [2, 1, 0, 0, 0, 0, 0, 0, 0, 0, 1])"
  by code_simp

text \<open>
  Claim C4, as stated, fails: the valid line 100 is tokenized to the symbols 1, 0, 0
  and the separator, so two digit-symbol-0 emissions are adjacent inside the payload.
\<close>

theorem adjacent_zeros_counterexample:
  "valid_line (strip ''100'') \<and>
   read_input [''100''] (0, [], replicate 11 0)
     = Inr (1, [1, 0, 0, 10], [2, 1, 0, 0, 0, 0, 0, 0, 0, 0, 1]) \<and>
   [1, 0, 0, 10 :: int] ! 1 = 0 \<and> [1, 0, 0, 10 :: int] ! 2 = 0"
  by code_simp

text \<open>
  Claim C4, amended. For every input file of valid integer lines, no number of the
  token stream begins with two 0 symbols: two adjacent 0 symbols are never at the start
  of the stream nor directly after a separator. So the decoder's end-of-stream test
  (the accumulated number equals -0) holds after no prefix of the payload, and the
  appended marker 0, 0 is never met as a false positive.
\<close>

theorem no_number_starts_with_eof:
  assumes v: "\<forall>l\<in>set lines. valid_line (strip l)"
    and ri: "read_input lines (0, [], replicate 11 0) = Inr (i, toks, counts)"
  shows "(\<forall>k. Suc k < length toks \<and> toks ! k = 0 \<and> toks ! Suc k = 0
              \<longrightarrow> 0 < k \<and> toks ! (k - 1) \<noteq> 10) \<and>
         (\<forall>p. prefix p toks
              \<longrightarrow> (\<exists>num out. tok_run p ([], []) = Some (num, out) \<and> num \<noteq> ''-0''))"
proof -
  note t = read_input_text(1) [OF v ri]
  show ?thesis
    using no_leading_double_zero [OF v] payload_prefix_safe [OF v]
    by (simp only: t) blast
qed

theorem no_number_starts_with_eof_witness:
  "read_input [''100''] (0, [], replicate 11 0)
     = Inr (1, [1, 0, 0, 10], [2, 1, 0, 0, 0, 0, 0, 0, 0, 0, 1]) \<and>
   (0::nat) < 1 \<and> [1, 0, 0, 10 :: int] ! (1 - 1) \<noteq> 10 \<and>
   (\<exists>num out. tok_run [1, 0, 0] ([], []) = Some (num, out) \<and> num \<noteq> ''-0'')"
proof -
  have v: "\<forall>l\<in>set [''100'']. valid_line (strip l)" by code_simp
  note th = no_number_starts_with_eof [OF v read_input_100]
  have pk: "Suc 1 < length [1, 0, 0, 10 :: int] \<and> [1, 0, 0, 10 :: int] ! 1 = 0
            \<and> [1, 0, 0, 10 :: int] ! Suc 1 = 0" by simp
  from th pk have a: "(0::nat) < 1 \<and> [1, 0, 0, 10 :: int] ! (1 - 1) \<noteq> 10" by blast
  have pp: "prefix [1, 0, 0] [1, 0, 0, 10 :: int]" by simp
  from th pp have b: "\<exists>num out. tok_run [1, 0, 0] ([], []) = Some (num, out) \<and> num \<noteq> ''-0''"
    by blast
  from read_input_100 a b show ?thesis by blast
qed

section \<open>Encoding then decoding a file of arbitrary lines\<close>

text \<open>
  The tokenizer accepts more than integers: every character whose offset from
  \<open>'0'\<close> is an index of the count table, negative indices included. When no line
  contains a character that selects the separator symbol, the token stream still has
  one separator for each line, and the decoder, which stops at the first end-of-stream
  marker it meets, writes no more lines than the encoder counted.
\<close>

subsection \<open>The tokens of a line without separator characters\<close>

lemma py_index_Some_range:
  "py_index xs k = Some j \<Longrightarrow> - int (length xs) \<le> k \<and> k < int (length xs)"
  by (auto simp: py_index_def split: if_splits)

lemma py_index_sym:
  assumes "length xs = 11" "-11 \<le> x" "x \<le> 10"
  shows "py_index xs x = Some (nat (sym_of x))" and "0 \<le> sym_of x" and "sym_of x \<le> 10"
  using assms by (auto simp: py_index_def sym_of_def)

lemma py_index_length:
  "py_index xs k = Some j \<Longrightarrow> j < length xs"
  by (auto simp: py_index_def split: if_splits)

lemma digit_not_sep:
  assumes "c \<noteq> CHR ''/''" "c \<noteq> CHR '':''"
  shows "sym_of (int (of_char c) - 48) \<noteq> 10"
proof -
  have "(of_char c :: nat) \<noteq> of_char (CHR ''/'')" "(of_char c :: nat) \<noteq> of_char (CHR '':'')"
    using assms by (simp_all only: of_char_eq_iff not_False_eq_True)
  then have "(of_char c :: nat) \<noteq> 47" "(of_char c :: nat) \<noteq> 58" by simp_all
  then show ?thesis by (auto simp: sym_of_def)
qed

lemma scan_line_range:
  "scan_line leading s (toks, counts) = Inr (toks', counts') \<Longrightarrow>
   length counts = 11 \<Longrightarrow> no_sep_chars s \<Longrightarrow>
   \<exists>new. toks' = toks @ new \<and> length counts' = 11 \<and>
         (\<forall>x\<in>set new. -11 \<le> x \<and> x \<le> 10 \<and> sym_of x \<noteq> 10) \<and>
         (new = [] \<longrightarrow> counts' = counts)"
proof (induction s arbitrary: leading toks counts)
  case Nil
  then show ?case by simp
next
  case (Cons c cs)
  from Cons.prems(3) have ns: "no_sep_chars cs" and c: "c \<noteq> CHR ''/''" "c \<noteq> CHR '':''"
    by (auto simp: no_sep_chars_def)
  show ?case
  proof (cases "leading \<and> c = CHR ''0''")
    case True
    with Cons.prems(1) have "scan_line leading cs (toks, counts) = Inr (toks', counts')" by simp
    from Cons.IH [OF this Cons.prems(2) ns] show ?thesis .
  next
    case False
    let ?c1 = "if c = CHR ''-'' then CHR ''0'' else c"
    let ?l1 = "if c = CHR ''-'' then leading else False"
    let ?d = "int (of_char ?c1) - 48"
    from False Cons.prems(1) obtain k where k: "py_index counts ?d = Some k"
      and r: "scan_line ?l1 cs (toks @ [?d], counts[k := counts ! k + 1]) = Inr (toks', counts')"
      by (auto simp: Let_def split: option.splits)
    from py_index_Some_range [OF k] Cons.prems(2) have d: "-11 \<le> ?d" "?d \<le> 10" by simp_all
    have "?c1 \<noteq> CHR ''/''" "?c1 \<noteq> CHR '':''" using c by auto
    then have nd: "sym_of ?d \<noteq> 10" by (rule digit_not_sep)
    have "length (counts[k := counts ! k + 1]) = 11" using Cons.prems(2) by simp
    from Cons.IH [OF r this ns] obtain new where
      n: "toks' = (toks @ [?d]) @ new" "length counts' = 11"
         "\<forall>x\<in>set new. -11 \<le> x \<and> x \<le> 10 \<and> sym_of x \<noteq> 10" by blast
    have "toks' = toks @ (?d # new)" using n(1) by simp
    moreover have "\<forall>x\<in>set (?d # new). -11 \<le> x \<and> x \<le> 10 \<and> sym_of x \<noteq> 10"
      using n(3) d nd by simp
    ultimately show ?thesis using n(2) by blast
  qed
qed

lemma seps_map_sym_none:
  "\<forall>x\<in>set new. -11 \<le> x \<and> x \<le> 10 \<and> sym_of x \<noteq> 10 \<Longrightarrow> seps (map sym_of new) = 0"
  by (induction new) simp_all

lemma sym_of_10: "sym_of 10 = 10"
  by (simp add: sym_of_def)

lemma read_input_range:
  "read_input lines (i, toks, counts) = Inr (i', toks', counts') \<Longrightarrow>
   length counts = 11 \<Longrightarrow> \<forall>l\<in>set lines. no_sep_chars (strip l) \<Longrightarrow>
   i' = i + length lines \<and> length counts' = 11 \<and>
   (\<exists>new. toks' = toks @ new \<and> (\<forall>x\<in>set new. -11 \<le> x \<and> x \<le> 10) \<and>
          seps (map sym_of new) = length lines \<and>
          (lines \<noteq> [] \<longrightarrow> new \<noteq> [] \<and> last new = 10) \<and>
          (new = [10] \<longrightarrow> counts' = counts[10 := counts ! 10 + 1]))"
proof (induction lines arbitrary: i toks counts)
  case Nil
  then show ?case by simp
next
  case (Cons l ls)
  from Cons.prems(3) have nl: "no_sep_chars (strip l)"
    and nls: "\<forall>l\<in>set ls. no_sep_chars (strip l)" by simp_all
  from Cons.prems(1) obtain t1 c1 k where
    s: "scan_line True (strip l) (toks, counts) = Inr (t1, c1)"
    and k: "py_index c1 10 = Some k"
    and r: "read_input ls (i + 1, t1 @ [10], c1[k := c1 ! k + 1]) = Inr (i', toks', counts')"
    by (auto split: sum.splits option.splits)
  from scan_line_range [OF s Cons.prems(2) nl] obtain n1 where
    n1: "t1 = toks @ n1" "length c1 = 11"
        "\<forall>x\<in>set n1. -11 \<le> x \<and> x \<le> 10 \<and> sym_of x \<noteq> 10"
        "n1 = [] \<longrightarrow> c1 = counts" by blast
  from k n1(2) have k10: "k = 10" by (simp add: py_index_def)
  have l2: "length (c1[k := c1 ! k + 1]) = 11" using n1(2) by simp
  from Cons.IH [OF r l2 nls] obtain n2 where
    i': "i' = i + 1 + length ls" and lc: "length counts' = 11"
    and n2: "toks' = (t1 @ [10]) @ n2" "\<forall>x\<in>set n2. -11 \<le> x \<and> x \<le> 10"
        "seps (map sym_of n2) = length ls"
        "ls \<noteq> [] \<longrightarrow> n2 \<noteq> [] \<and> last n2 = 10"
        "n2 = [10] \<longrightarrow> counts' = (c1[k := c1 ! k + 1])[10 := c1[k := c1 ! k + 1] ! 10 + 1]"
    by blast
  have e0: "ls = [] \<Longrightarrow> n2 = [] \<and> counts' = c1[k := c1 ! k + 1]"
    using r n2(1) by auto
  let ?new = "n1 @ 10 # n2"
  have a: "toks' = toks @ ?new" using n1(1) n2(1) by simp
  have b: "\<forall>x\<in>set ?new. -11 \<le> x \<and> x \<le> 10" using n1(3) n2(2) by auto
  have c: "seps (map sym_of ?new) = length (l # ls)"
    using seps_map_sym_none [OF n1(3)] n2(3) by (simp add: sym_of_10)
  have d: "?new \<noteq> [] \<and> last ?new = 10"
    using n2(4) e0 by (cases "ls = []") auto
  have e: "?new = [10] \<longrightarrow> counts' = counts[10 := counts ! 10 + 1]"
  proof
    assume "?new = [10]"
    then have z: "n1 = []" "n2 = []" by (auto simp: append_eq_Cons_conv)
    with n2(4) have "ls = []" by auto
    with e0 z n1(4) k10 show "counts' = counts[10 := counts ! 10 + 1]" by simp
  qed
  from i' lc a b c d e show ?case by (intro conjI exI [of _ ?new]) simp_all
qed

lemma set_strip: "c \<in> set (strip l) \<Longrightarrow> c \<in> set l"
proof -
  assume "c \<in> set (strip l)"
  then have "c \<in> set (dropWhile is_space (rev (dropWhile is_space l)))"
    by (simp add: strip_def)
  then have "c \<in> set (rev (dropWhile is_space l))" by (rule set_dropWhileD)
  then have "c \<in> set (dropWhile is_space l)" by simp
  then show "c \<in> set l" by (rule set_dropWhileD)
qed

lemma no_sep_chars_strip: "no_sep_chars l \<Longrightarrow> no_sep_chars (strip l)"
  using set_strip by (auto simp: no_sep_chars_def)

subsection \<open>The write loop with negative indices\<close>

lemma fill_sym:
  "length codes = 11 \<Longrightarrow> \<forall>x\<in>set toks. -11 \<le> x \<and> x \<le> 10 \<Longrightarrow>
   fill codes toks n b = fill codes (map sym_of toks) n b"
proof (induction codes toks n b rule: fill.induct)
  case (1 codes toks n buffer)
  show ?case
  proof (cases "length buffer < 8")
    case False
    then show ?thesis by (simp add: fill.simps)
  next
    case short: True
    show ?thesis
    proof (cases "n < length toks")
      case True
      then have x: "-11 \<le> toks ! n" "toks ! n \<le> 10" using "1.prems"(2) by simp_all
      note p = py_index_sym [OF "1.prems"(1) x]
      have q: "py_index codes (sym_of (toks ! n)) = Some (nat (sym_of (toks ! n)))"
        using p(2,3) "1.prems"(1) by (simp add: py_index_def)
      have "fill codes toks n buffer
            = fill codes toks (n + 1) (buffer @ codes ! nat (sym_of (toks ! n)))"
        using short True p(1) by (subst fill.simps) simp
      also have "\<dots> = fill codes (map sym_of toks) (n + 1) (buffer @ codes ! nat (sym_of (toks ! n)))"
        by (rule "1.IH"(1) [OF short True p(1) "1.prems"])
      also have "\<dots> = fill codes (map sym_of toks) n buffer"
        using short True q by (subst (2) fill.simps) simp
      finally show ?thesis .
    next
      case False
      show ?thesis
      proof (cases "0 < length buffer")
        case True
        have "fill codes toks n buffer
              = fill codes toks n (buffer @ replicate (8 - length buffer) (CHR ''0''))"
          using short False True by (subst fill.simps) simp
        also have "\<dots> = fill codes (map sym_of toks) n
                            (buffer @ replicate (8 - length buffer) (CHR ''0''))"
          by (rule "1.IH"(2) [OF short False True "1.prems"])
        also have "\<dots> = fill codes (map sym_of toks) n buffer"
          using short False True by (subst (2) fill.simps) simp
        finally show ?thesis .
      next
        case e: False
        have "fill codes toks n buffer = Inr (n, buffer)"
          using short False e by (subst fill.simps) simp
        moreover have "fill codes (map sym_of toks) n buffer = Inr (n, buffer)"
          using short False e by (subst fill.simps) simp
        ultimately show ?thesis by simp
      qed
    qed
  qed
qed

lemma write_loop_sym:
  "length codes = 11 \<Longrightarrow> \<forall>x\<in>set toks. -11 \<le> x \<and> x \<le> 10 \<Longrightarrow>
   write_loop codes toks n b out = write_loop codes (map sym_of toks) n b out"
proof (induction codes toks n b out rule: write_loop.induct)
  case (1 codes toks n buffer out)
  note f = fill_sym [OF "1.prems", of n "drop 8 buffer"]
  show ?case
  proof (cases "n < length toks \<or> buffer \<noteq> []")
    case False
    then show ?thesis by (simp add: write_loop.simps)
  next
    case go: True
    show ?thesis
    proof (cases "int2 (take 8 buffer)")
      case None
      with go show ?thesis by (simp add: write_loop.simps)
    next
      case (Some v)
      show ?thesis
      proof (cases "fill codes toks n (drop 8 buffer)")
        case (Inl e)
        have "write_loop codes toks n buffer out = Inl e"
          using go Some Inl by (subst write_loop.simps) simp
        moreover have "write_loop codes (map sym_of toks) n buffer out = Inl e"
          using go Some Inl f by (subst write_loop.simps) simp
        ultimately show ?thesis by simp
      next
        case (Inr r)
        obtain n1 b1 where r: "r = (n1, b1)" by (cases r)
        have "write_loop codes toks n buffer out
              = write_loop codes toks n1 b1 (out @ [of_nat v])"
          using go Some Inr r by (subst write_loop.simps) simp
        also have "\<dots> = write_loop codes (map sym_of toks) n1 b1 (out @ [of_nat v])"
          using Inr r by (intro "1.IH" [OF go Some _ _ "1.prems"]) simp_all
        also have "\<dots> = write_loop codes (map sym_of toks) n buffer out"
          using go Some Inr r f by (subst (2) write_loop.simps) simp
        finally show ?thesis .
      qed
    qed
  qed
qed

lemma sym_of_range: "-11 \<le> x \<Longrightarrow> x \<le> 10 \<Longrightarrow> 0 \<le> sym_of x \<and> sym_of x \<le> 10"
  by (simp add: sym_of_def)

lemma write_output_sym:
  assumes "length codes = 11" "\<forall>x\<in>set toks. -11 \<le> x \<and> x \<le> 10"
  shows "write_output t codes (toks @ [0, 0]) = write_output t codes (map sym_of toks @ [0, 0])"
proof -
  have "\<forall>x\<in>set (toks @ [0, 0]). -11 \<le> x \<and> x \<le> 10" using assms(2) by simp
  from write_loop_sym [OF assms(1) this, of 0 "header_bits t" "[]"]
  show ?thesis by (simp add: write_output_def sym_of_def)
qed

subsection \<open>The decoder stops at the first end-of-stream marker\<close>

lemma tok_run_first_eof:
  "tok_run ts (num, out) = None \<Longrightarrow>
   \<exists>p q res. ts = p @ q \<and> tok_run p (num, out) = Some (''-0'', res)"
proof (induction ts arbitrary: num out)
  case Nil
  then show ?case by simp
next
  case (Cons x xs)
  show ?case
  proof (cases "num = ''-0''")
    case True
    have "x # xs = [] @ (x # xs) \<and> tok_run [] (num, out) = Some (''-0'', out)"
      using True by simp
    then show ?thesis by blast
  next
    case False
    let ?st = "if x = 10 then ([], out @ [if num = [] then ''0'' else num])
               else (num_step num (nat x), out)"
    obtain n1 o1 where st: "?st = (n1, o1)" by (cases ?st)
    have step: "\<And>ys. tok_run (x # ys) (num, out) = tok_run ys (n1, o1)"
      using False st by (auto split: if_splits)
    with Cons.prems have "tok_run xs (n1, o1) = None" by simp
    from Cons.IH [OF this] obtain p q res where
      "xs = p @ q" "tok_run p (n1, o1) = Some (''-0'', res)" by blast
    then have "x # xs = (x # p) @ q \<and> tok_run (x # p) (num, out) = Some (''-0'', res)"
      using step by simp
    then show ?thesis by blast
  qed
qed

lemma tok_run_reaches_eof:
  "\<exists>p q res. T @ [10, 0, 0] = p @ q \<and> tok_run p ([], []) = Some (''-0'', res)"
proof (cases "tok_run (T @ [10, 0, 0]) ([], [])")
  case None
  from tok_run_first_eof [OF None] show ?thesis .
next
  case (Some r)
  have sp: "T @ [10, 0, 0] = (T @ [10]) @ [0, 0]" by simp
  from Some obtain n1 o1 where a: "tok_run (T @ [10]) ([], []) = Some (n1, o1)"
    and b: "tok_run [0, 0] (n1, o1) = Some r"
    by (auto simp only: sp tok_run_append split: option.splits)
  from tok_run_after_sep [OF a] have "n1 = []" .
  with b tok_run_eof [of o1] have "r = (''-0'', o1)" by simp
  with Some have "T @ [10, 0, 0] = (T @ [10, 0, 0]) @ [] \<and>
     tok_run (T @ [10, 0, 0]) ([], []) = Some (''-0'', o1)" by simp
  then show ?thesis by blast
qed

lemma counts_single_sep:
  "(replicate 11 (0::int))[10 := replicate 11 0 ! 10 + 1] = [0, 0, 0, 0, 0, 0, 0, 0, 0, 0, 1]"
  by code_simp

lemma payload_length_general:
  assumes g: "good_codes (huffman t)" and r: "\<forall>x\<in>set T. 0 \<le> x \<and> x \<le> 10"
    and z: "T = [] \<Longrightarrow> length (huffman t ! 0) = 5 \<and> length (huffman t ! 10) = 1"
  shows "5 \<le> length (payload (huffman t) (T @ [10, 0, 0]))"
proof -
  let ?codes = "huffman t"
  have len: "length (payload ?codes (T @ [10, 0, 0]))
        = length (payload ?codes T) + length (?codes ! 10) + 2 * length (?codes ! 0)"
    by (simp only: payload_append) (simp add: payload_Cons payload_Nil)
  have c0: "1 \<le> length (?codes ! 0)"
    using good_codes_nth(2) [OF g, of 0] by (cases "?codes ! 0") simp_all
  show ?thesis
  proof (cases "T = []")
    case True
    from z [OF True] len show ?thesis by simp
  next
    case False
    from payload_min [OF g r] False have "1 \<le> length (payload ?codes T)"
      by (cases T) simp_all
    with two_short_codes [OF g] c0 len show ?thesis by simp
  qed
qed

lemma encode_empty: "ENCODE [] = Inl ZeroDivisionError"
  by code_simp

lemma encode_no_sep:
  assumes e: "ENCODE lines = Inr (fl, i)"
    and n: "\<forall>l\<in>set lines. no_sep_chars (strip l)"
  shows "\<exists>s. DECODE fl i = Some (Inr s) \<and> j_count s \<le> i"
proof -
  from e obtain text0 counts t st where
    ri: "read_input lines (0, [], replicate 11 0) = Inr (i, text0, counts)"
    and t: "tree counts = Inr t"
    and w: "write_output t (huffman t) (text0 @ [0, 0]) = Inr fl"
    by (auto simp: ENCODE_def split: sum.splits prod.splits)
  have ne: "lines \<noteq> []" using e encode_empty by auto
  have l0: "length (replicate 11 (0::int)) = 11" by simp
  from read_input_range [OF ri l0 n] ne have
    i: "i = length lines" and lc: "length counts = 11"
    and r0: "\<forall>x\<in>set text0. -11 \<le> x \<and> x \<le> 10"
    and sp: "seps (map sym_of text0) = length lines"
    and last: "text0 \<noteq> []" "last text0 = 10"
    and single: "text0 = [10] \<longrightarrow> counts = (replicate 11 0)[10 := replicate 11 0 ! 10 + 1]"
    by auto
  from tree_wf [OF lc] t have wf: "wf_tree t" by auto
  let ?codes = "huffman t"
  note g = wf_tree_good_codes [OF wf]
  from g have l11: "length ?codes = 11" by (simp add: good_codes_def)
  define T where "T = map sym_of (butlast text0)"
  let ?ts = "T @ [10, 0, 0]"
  have t0: "text0 = butlast text0 @ [10]" using last append_butlast_last_id [of text0] by simp
  have ts: "map sym_of text0 @ [0, 0] = ?ts"
    by (subst t0) (simp add: T_def sym_of_10)
  have rT: "\<forall>x\<in>set T. 0 \<le> x \<and> x \<le> 10"
    using r0 sym_of_range by (auto simp: T_def dest: in_set_butlastD)
  then have rng: "\<forall>x\<in>set ?ts. 0 \<le> x \<and> x \<le> 10" by simp
  have "seps ?ts = seps (map sym_of text0 @ [0, 0])" by (simp only: ts)
  then have sT: "seps ?ts = length lines" using sp by simp
  note tok = good_codes_tokens_ok [OF g rng]
  let ?TP = "tail_pad (payload ?codes ?ts)"
  from header_roundtrip [OF wf tok] obtain fl' src where
    w': "write_output t ?codes ?ts = Inr fl'"
    and rh': "read_header fl' [] = Inr (t, take 4 ?TP, src)"
    and bs: "bits_of src = drop 4 ?TP" by blast
  from write_output_sym [OF l11 r0, of t] w w' ts have "fl' = fl" by simp
  with rh' have rh: "read_header fl [] = Inr (t, take 4 ?TP, src)" by simp
  have "5 \<le> length (payload ?codes ?ts)"
  proof (rule payload_length_general [OF g rT])
    assume "T = []"
    then have "butlast text0 = []" by (simp add: T_def)
    with t0 have "text0 = [10]" by simp
    with single have "counts = [0, 0, 0, 0, 0, 0, 0, 0, 0, 0, 1]"
      by (simp only: counts_single_sep)
    with t tree_single_zero
    have "t = [11, 11, 12, 12, 13, 13, 14, 14, 15, 15, 20, 16, 16, 17, 17, 18, 18, 19, 19, 20, 26]"
      by simp
    then show "length (huffman t ! 0) = 5 \<and> length (huffman t ! 10) = 1"
      by (simp only: huffman_single_zero) simp
  qed
  then have "5 \<le> length ?TP" by (simp add: tail_pad_def)
  then have "bits_of src \<noteq> []" using bs by simp
  then have sne: "src \<noteq> []" by (auto simp: bits_of_Nil)
  from tok_run_reaches_eof [of T] obtain p q res where
    pq: "?ts = p @ q" and run0: "tok_run p ([], []) = Some (''-0'', res)" by blast
  have pne: "p \<noteq> []" using run0 by auto
  have rp: "\<forall>x\<in>set p. 0 \<le> x \<and> x \<le> 10"
  proof
    fix x assume "x \<in> set p"
    then have "x \<in> set ?ts" by (simp only: pq) simp
    with rng show "0 \<le> x \<and> x \<le> 10" by blast
  qed
  have "seps p + seps q = length lines" using sT by (simp only: pq seps_simps)
  then have sp': "seps p \<le> i" using i by simp
  let ?s0 = "\<lparr>buffer = take 4 ?TP, number = [], lines_out = [], j_count = 0, writing = True\<rparr>"
  let ?Z = "payload ?codes q
              @ replicate ((8 - (84 + length (payload ?codes ?ts)) mod 8) mod 8) (CHR ''0'')"
  have "payload ?codes ?ts = payload ?codes p @ payload ?codes q"
    by (simp only: pq payload_append)
  then have tp: "?TP = payload ?codes p @ ?Z" by (simp add: tail_pad_def)
  have "buffer ?s0 @ bits_of src = ?TP" by (simp add: bs)
  with tp have bits: "buffer ?s0 @ bits_of src = payload ?codes p @ ?Z" by simp
  have run: "tok_run p (number ?s0, lines_out ?s0) = Some (''-0'', res)" using run0 by simp
  have j: "j_count ?s0 + seps p \<le> i" using sp' by simp
  have wr: "writing ?s0" by simp
  from decode_loop_spec [OF g sne pne wr rp bits run j] obtain s where
    dl: "decode_loop ?codes i src ?s0 = Some (Inr s)"
    and r: "j_count s = j_count ?s0 + seps p" by blast
  have "DECODE fl i = Some (Inr s)" using rh dl by (simp add: DECODE_def)
  with r sp' show ?thesis by simp
qed

section \<open>Claims about the whole script\<close>

lemma huff_empty: "HUFF [] = Some (Inl ZeroDivisionError)"
  by code_simp

lemma encode_example:
  "ENCODE [''7'' @ [CHR 0x0A], ''-42''] =
     Inr ([80, 96, 97, 23, 34, 131, 52, 69, 120, 153, 253, 160, 182, 128], 2)"
  by code_simp

lemma encode_blank_example:
  "ENCODE [''7'' @ [CHR 0x0A], [CHR 0x0A], ''-42''] =
     Inr ([80, 96, 97, 23, 34, 147, 52, 69, 120, 137, 243, 138, 113, 16], 3)"
  by code_simp

text \<open>
  Claim C1. For every non-empty input file whose lines are canonical integers, the
  script encodes, decodes and writes exactly the original lines (each line without its
  line terminator and surrounding whitespace, which \<open>strip\<close> removes). For the empty file, which the claim includes, the script
  raises ZeroDivisionError in the statistics (\<open>bits/count\<close> with \<open>count = 0\<close>) before
  it writes the compressed file.
\<close>

theorem roundtrip_canonical:
  assumes c: "\<forall>l\<in>set lines. canonical (strip l)"
  shows "(lines = [] \<longrightarrow> HUFF lines = Some (Inl ZeroDivisionError)) \<and>
         (lines \<noteq> [] \<longrightarrow>
            (\<exists>s. HUFF lines = Some (Inr s) \<and> lines_out s = map strip lines))"
proof (intro conjI impI)
  assume "lines = []"
  then show "HUFF lines = Some (Inl ZeroDivisionError)" by (simp only: huff_empty)
next
  assume ne: "lines \<noteq> []"
  from c have v: "\<forall>l\<in>set lines. valid_line (strip l)" by (auto intro: canonical_valid)
  from roundtrip_valid [OF v ne] obtain fl s where
    e: "ENCODE lines = Inr (fl, length lines)"
    and d: "DECODE fl (length lines) = Some (Inr s)"
    and o: "lines_out s = map (\<lambda>l. decoded_line (strip l)) lines" by blast
  have "map (\<lambda>l. decoded_line (strip l)) lines = map strip lines"
    using c by (intro map_cong refl canonical_decoded) simp
  with e d o show "\<exists>s. HUFF lines = Some (Inr s) \<and> lines_out s = map strip lines"
    by (simp add: HUFF_def)
qed

theorem roundtrip_canonical_witness:
  "\<exists>s. HUFF [''7'' @ [CHR 0x0A], ''-42''] = Some (Inr s) \<and> lines_out s = [''7'', ''-42'']"
proof -
  have c: "\<forall>l\<in>set [''7'' @ [CHR 0x0A], ''-42'']. canonical (strip l)" by code_simp
  have m: "map strip [''7'' @ [CHR 0x0A], ''-42''] = [''7'', ''-42'']" by code_simp
  have ne: "[''7'' @ [CHR 0x0A], ''-42''] \<noteq> []" by simp
  from roundtrip_canonical [OF c] ne
  have "\<exists>s. HUFF [''7'' @ [CHR 0x0A], ''-42''] = Some (Inr s)
            \<and> lines_out s = map strip [''7'' @ [CHR 0x0A], ''-42'']" by blast
  then show ?thesis by (simp only: m)
qed




text \<open>
  The line -0 alone, step by step: the tokenizer emits the symbol 0 for the sign and
  drops the zero, so the line is the symbols 0 and separator; the decoder's number is
  the sign marker alone when the separator arrives, and the default to 0 applies only
  to an empty number.
\<close>

lemma minus_zero_trace:
  "read_input [''-0''] (0, [], replicate 11 0)
     = Inr (1, [0, 10], [1, 0, 0, 0, 0, 0, 0, 0, 0, 0, 1]) \<and>
   tok_run [0] ([], []) = Some (''-'', []) \<and>
   tok_run [0, 10] ([], []) = Some ([], [''-'']) \<and>
   HUFF [''-0''] =
     Some (Inr \<lparr>buffer = ''00000'', number = ''-0'', lines_out = [''-''],
               j_count = 1, writing = False\<rparr>) \<and>
   HUFF [''-0'' @ [CHR 0x0A]] =
     Some (Inr \<lparr>buffer = ''00000'', number = ''-0'', lines_out = [''-''],
               j_count = 1, writing = False\<rparr>)"
  by code_simp

text \<open>
  Claim C7. In every input file of valid integer lines, for a line whose text is -0
  (with or without its line terminator), the line the decoder writes at the same
  position is the bare sign character, not 0 and not -0.
\<close>

theorem minus_zero_decodes_to_sign:
  assumes v: "\<forall>l\<in>set lines. valid_line (strip l)"
    and k: "k < length lines"
    and z: "strip (lines ! k) = ''-0''"
  shows "\<exists>s. HUFF lines = Some (Inr s) \<and> length (lines_out s) = length lines \<and>
             lines_out s ! k = ''-''"
proof -
  from k have ne: "lines \<noteq> []" by auto
  from roundtrip_valid [OF v ne] obtain fl s where
    e: "ENCODE lines = Inr (fl, length lines)"
    and d: "DECODE fl (length lines) = Some (Inr s)"
    and o: "lines_out s = map (\<lambda>l. decoded_line (strip l)) lines" by blast
  have h: "HUFF lines = Some (Inr s)" using e d by (simp add: HUFF_def)
  have "lines_out s ! k = decoded_line (strip (lines ! k))" using o k by simp
  also have "\<dots> = ''-''" by (simp only: z) simp
  finally have "lines_out s ! k = ''-''" .
  with h o show ?thesis by simp
qed

theorem minus_zero_decodes_to_sign_witness:
  "\<exists>s. HUFF [''5'' @ [CHR 0x0A], ''-0'' @ [CHR 0x0A], ''7''] = Some (Inr s) \<and>
       length (lines_out s) = 3 \<and> lines_out s ! 1 = ''-''"
proof -
  have v: "\<forall>l\<in>set [''5'' @ [CHR 0x0A], ''-0'' @ [CHR 0x0A], ''7'']. valid_line (strip l)"
    by code_simp
  have k: "1 < length [''5'' @ [CHR 0x0A], ''-0'' @ [CHR 0x0A], ''7'']" by simp
  have z: "strip ([''5'' @ [CHR 0x0A], ''-0'' @ [CHR 0x0A], ''7''] ! 1) = ''-0''" by code_simp
  have l: "length [''5'' @ [CHR 0x0A], ''-0'' @ [CHR 0x0A], ''7''] = 3" by simp
  from minus_zero_decodes_to_sign [OF v k z]
  show ?thesis by (simp only: l)
qed

text \<open>
  Claim C9 fails on the code. For the empty input file all counts are 0, the
  statistics divide by \<open>count = 0\<close> and the script ends with ZeroDivisionError before
  the output file is opened: there is no header, no body and no decoding. The stages
  themselves would do what the claim says: written with the all-zero table's tree, the
  two-symbol marker gives 12 bytes that decode to zero lines, in the ended state.
\<close>

theorem empty_file_raises:
  "read_input [] (0, [], replicate 11 0) = Inr (0, [], replicate 11 0) \<and>
   tree (replicate 11 0) =
     Inr [11, 11, 12, 12, 13, 13, 14, 14, 15, 15, 16, 16, 17, 17, 18, 18, 19, 19, 20, 20, 26] \<and>
   infos (replicate 11 0)
     (huffman [11, 11, 12, 12, 13, 13, 14, 14, 15, 15, 16, 16, 17, 17, 18, 18, 19, 19, 20, 20, 26])
     = Inl ZeroDivisionError \<and>
   ENCODE [] = Inl ZeroDivisionError \<and>
   HUFF [] = Some (Inl ZeroDivisionError) \<and>
   write_output
     [11, 11, 12, 12, 13, 13, 14, 14, 15, 15, 16, 16, 17, 17, 18, 18, 19, 19, 20, 20, 26]
     (huffman [11, 11, 12, 12, 13, 13, 14, 14, 15, 15, 16, 16, 17, 17, 18, 18, 19, 19, 20, 20, 26])
     [0, 0]
     = Inr [0, 17, 34, 51, 68, 85, 102, 119, 136, 153, 245, 80] \<and>
   DECODE [0, 17, 34, 51, 68, 85, 102, 119, 136, 153, 245, 80] 0 =
     Some (Inr \<lparr>buffer = ''0000'', number = ''-0'', lines_out = [], j_count = 0,
               writing = False\<rparr>)"
  by code_simp

end
